theory Spec2Isabelle
  imports Complex_Main "HOL-Library.Word" "HOL-Library.Sublist"
begin

unbundle bit_operations_syntax

section \<open>Robust column-wise split finder (updater\_robust\_colmaker.cc)\<close>

text \<open>
  Conventions of the embedding.
  \<^item> \<open>bst_float\<close> and \<open>double\<close> values are read as \<open>real\<close>. Sums, scores and thresholds
    are values only, and their rounding is not modelled. The one place of the sweep where
    rounding decides what is done, the differences \<open>eta = fvalue - eps\<close> and \<open>eta - eps\<close>
    with which the heads of the queues are compared, goes through the subtraction \<open>fsub\<close>,
    a parameter of the builder.
  \<^item> C++ \<open>int\<close> node ids and encoded positions are \<open>int\<close>; the only operation on them is
    the bitwise complement \<open>~\<close>, written \<open>NOT\<close>, which cannot overflow.
  \<^item> \<open>std::vector\<close>s indexed by row id or node id (\<open>position_\<close>, \<open>gpair\<close>, \<open>snode_\<close>,
    one thread's \<open>stemp_[tid]\<close>) are total functions of the index.
  \<^item> The \<open>robust_training_verbose\<close> branches only print; they are left out.
  \<^item> Member names ending in an underscore (\<open>position_\<close>, \<open>snode_\<close>, \<open>qexpand_\<close>,
    \<open>cleft_\<close>, ...) are written without it.
\<close>

subsection \<open>Gradient statistics\<close>

record GradientPair =
  grad :: real
  hess :: real

record GradStats =
  sum_grad :: real
  sum_hess :: real

text \<open>
  Modelled from the spec: \<open>GradStats\<close> is declared in param.h, which is not part of the
  sources at hand. Section 3 of the specification gives it as the accumulator
  \<open>(sum_grad, sum_hess)\<close> with add, subtract, union (equivalent to add), clear and the
  emptiness test on \<open>sum_hess\<close>.
\<close>

definition Clear :: "GradStats" where
  "Clear = \<lparr>sum_grad = 0, sum_hess = 0\<rparr>"

definition Add :: "GradStats \<Rightarrow> GradientPair \<Rightarrow> GradStats" where
  "Add s p = \<lparr>sum_grad = sum_grad s + grad p, sum_hess = sum_hess s + hess p\<rparr>"

definition Subtract :: "GradStats \<Rightarrow> GradientPair \<Rightarrow> GradStats" where
  "Subtract s p = \<lparr>sum_grad = sum_grad s - grad p, sum_hess = sum_hess s - hess p\<rparr>"

definition AddStats :: "GradStats \<Rightarrow> GradStats \<Rightarrow> GradStats" where
  "AddStats s t = \<lparr>sum_grad = sum_grad s + sum_grad t, sum_hess = sum_hess s + sum_hess t\<rparr>"

definition SetSubstract :: "GradStats \<Rightarrow> GradStats \<Rightarrow> GradStats" where
  "SetSubstract a b = \<lparr>sum_grad = sum_grad a - sum_grad b, sum_hess = sum_hess a - sum_hess b\<rparr>"

definition SetUnion :: "GradStats \<Rightarrow> GradStats \<Rightarrow> GradStats" where
  "SetUnion a b = \<lparr>sum_grad = sum_grad a + sum_grad b, sum_hess = sum_hess a + sum_hess b\<rparr>"

definition Empty :: "GradStats \<Rightarrow> bool" where
  "Empty s \<longleftrightarrow> sum_hess s = 0"

subsection \<open>Split entries\<close>

text \<open>
  Modelled from the spec: \<open>SplitEntry\<close>, its \<open>Update\<close> and \<open>update_split_value\<close> are
  declared in param.h, which is not part of the sources at hand. Section 3 of the
  specification: the entry is (loss\_chg, feature id, threshold, default-left flag); an
  update replaces the entry only if the candidate has strictly higher loss\_chg, ties broken
  by lower feature id, then lower threshold; a distinct mutator sets the threshold alone.
\<close>

record SplitEntry =
  loss_chg :: real
  SplitIndex :: nat
  split_value :: real
  DefaultLeft :: bool

definition SplitEntry0 :: SplitEntry where
  "SplitEntry0 = \<lparr>loss_chg = 0, SplitIndex = 0, split_value = 0, DefaultLeft = False\<rparr>"

definition NeedReplace :: "SplitEntry \<Rightarrow> real \<Rightarrow> nat \<Rightarrow> real \<Rightarrow> bool" where
  "NeedReplace e new_loss_chg split_index new_split_value \<longleftrightarrow>
     new_loss_chg > loss_chg e \<or>
     (new_loss_chg = loss_chg e \<and>
        (split_index < SplitIndex e \<or>
         (split_index = SplitIndex e \<and> new_split_value < split_value e)))"

definition Update :: "SplitEntry \<Rightarrow> real \<Rightarrow> nat \<Rightarrow> real \<Rightarrow> bool \<Rightarrow> SplitEntry" where
  "Update e new_loss_chg split_index new_split_value default_left =
     (if NeedReplace e new_loss_chg split_index new_split_value
      then \<lparr>loss_chg = new_loss_chg, SplitIndex = split_index,
            split_value = new_split_value, DefaultLeft = default_left\<rparr>
      else e)"

definition update_split_value :: "SplitEntry \<Rightarrow> real \<Rightarrow> SplitEntry" where
  "update_split_value e new_split_value = e\<lparr>split_value := new_split_value\<rparr>"

subsection \<open>Column entries and per-thread, per-node scan state\<close>

record Entry =
  index :: nat
  fvalue :: real

text \<open>
  The queues hold \<open>const Entry*\<close> pointers into the column. A pointer is modelled as the
  offset of the entry in scan order together with the (constant) entry it points to.
\<close>

type_synonym EntryPtr = "nat \<times> Entry"

record ThreadEntry =
  stats :: GradStats
  stats_left :: GradStats
  stats_c_left :: GradStats
  c_left_counter :: "32 word"
  stats_unc_right :: GradStats
  stats_unc :: GradStats
  stats_extra :: GradStats
  data_unc_right :: "EntryPtr list"
  data_unc :: "EntryPtr list"
  last_fvalue :: real
  first_fvalue :: real
  best :: SplitEntry

record NodeEntry =
  node_stats :: GradStats
  root_gain :: real
  weight :: real
  node_best :: SplitEntry

text \<open>
  The fields of \<open>Builder\<close> that the enumeration reads. \<open>kRtEps\<close> (param.h) and the split
  evaluator's \<open>ComputeSplitScore\<close> (split\_evaluator.h) are not part of the sources at hand
  and are taken as parameters. So is \<open>fsub\<close>, the subtraction of \<open>bst_float\<close>: the source
  computes \<open>eta = fvalue - eps\<close> and \<open>eta - eps\<close> in single precision and compares queue
  heads with the rounded results, so the rounding decides which entries are popped. Nothing
  is assumed about \<open>fsub\<close> in the definitions.
\<close>

record Builder =
  min_child_weight :: real
  robust_eps :: real
  learning_rate :: real
  kRtEps :: real
  ComputeSplitScore :: "int \<Rightarrow> nat \<Rightarrow> GradStats \<Rightarrow> GradStats \<Rightarrow> real"
  fsub :: "real \<Rightarrow> real \<Rightarrow> real"
  position :: "nat \<Rightarrow> int"
  snode :: "int \<Rightarrow> NodeEntry"
  qexpand :: "int list"

subsection \<open>Encoded positions\<close>

definition DecodePosition :: "(nat \<Rightarrow> int) \<Rightarrow> nat \<Rightarrow> int" where
  "DecodePosition pos ridx = (let pid = pos ridx in if pid < 0 then NOT pid else pid)"

definition SetEncodePosition :: "(nat \<Rightarrow> int) \<Rightarrow> nat \<Rightarrow> int \<Rightarrow> (nat \<Rightarrow> int)" where
  "SetEncodePosition pos ridx nid =
     (if pos ridx < 0 then pos(ridx := NOT nid) else pos(ridx := nid))"

subsection \<open>EnumerateSplit: reset of the scan state\<close>

definition clear_node :: "ThreadEntry \<Rightarrow> ThreadEntry" where
  "clear_node e = e\<lparr>stats := Clear, stats_left := Clear, data_unc_right := [],
     data_unc := [], stats_unc_right := Clear, stats_c_left := Clear,
     c_left_counter := 0, stats_unc := Clear\<rparr>"

fun clear_temp :: "int list \<Rightarrow> (int \<Rightarrow> ThreadEntry) \<Rightarrow> (int \<Rightarrow> ThreadEntry)" where
  "clear_temp [] temp = temp"
| "clear_temp (nid # q) temp = clear_temp q (temp(nid := clear_node (temp nid)))"

subsection \<open>EnumerateSplit: order normalisation\<close>

text \<open>
  \<open>col\<close> is the slice as the caller hands it over: the entries at \<open>begin\<close>,
  \<open>begin + d_step\<close>, ..., \<open>end - d_step\<close>. When its first value is greater than its last one
  the loops start at \<open>end - d_step\<close> and step by \<open>-d_step\<close>, that is, they walk the slice
  backwards. (On an empty slice the source reads \<open>begin->fvalue\<close> out of range; the model
  takes the slice as it is.)
\<close>

definition descent :: "Entry list \<Rightarrow> bool" where
  "descent col \<longleftrightarrow> col \<noteq> [] \<and> fvalue (hd col) > fvalue (last col)"

definition scan_order :: "Entry list \<Rightarrow> EntryPtr list" where
  "scan_order col = enumerate 0 (if descent col then rev col else col)"

subsection \<open>EnumerateSplit: main sweep\<close>

fun drain_unc_right ::
  "(nat \<Rightarrow> GradientPair) \<Rightarrow> real \<Rightarrow> EntryPtr list \<Rightarrow> ThreadEntry \<Rightarrow> ThreadEntry" where
  "drain_unc_right gpair eta [] e = e\<lparr>data_unc_right := []\<rparr>"
| "drain_unc_right gpair eta (unadded_front # rest) e =
     (if fvalue (snd unadded_front) < eta
      then drain_unc_right gpair eta rest
             (e\<lparr>stats_left := Add (stats_left e) (gpair (index (snd unadded_front))),
                stats_unc_right :=
                  Subtract (stats_unc_right e) (gpair (index (snd unadded_front)))\<rparr>)
      else e\<lparr>data_unc_right := unadded_front # rest\<rparr>)"

fun drain_unc ::
  "(nat \<Rightarrow> GradientPair) \<Rightarrow> real \<Rightarrow> EntryPtr list \<Rightarrow> ThreadEntry \<Rightarrow> ThreadEntry" where
  "drain_unc gpair bound [] e = e\<lparr>data_unc := []\<rparr>"
| "drain_unc gpair bound (unc_front # rest) e =
     (if fvalue (snd unc_front) < bound
      then drain_unc gpair bound rest
             (e\<lparr>stats_c_left := Add (stats_c_left e) (gpair (index (snd unc_front))),
                c_left_counter := c_left_counter e + 1,
                stats_unc := Subtract (stats_unc e) (gpair (index (snd unc_front)))\<rparr>)
      else e\<lparr>data_unc := unc_front # rest\<rparr>)"

text \<open>
  Every loss change in the source is computed by the same four lines: the split score of
  the accumulated side \<open>part\<close> and its complement \<open>c\<close>, with the two arguments exchanged
  when \<open>d_step == -1\<close>, minus the node's root gain.
\<close>

definition split_loss_chg ::
  "Builder \<Rightarrow> int \<Rightarrow> int \<Rightarrow> nat \<Rightarrow> GradStats \<Rightarrow> GradStats \<Rightarrow> real" where
  "split_loss_chg b d_step nid fid part c =
     (if d_step = -1 then ComputeSplitScore b nid fid c part
      else ComputeSplitScore b nid fid part c) - root_gain (snode b nid)"

definition put_left_loss_chg :: "Builder \<Rightarrow> int \<Rightarrow> int \<Rightarrow> nat \<Rightarrow> ThreadEntry \<Rightarrow> real" where
  "put_left_loss_chg b d_step nid fid e =
     (let all_left = SetUnion (stats_c_left e) (stats_unc e);
          c_right = SetSubstract (node_stats (snode b nid)) all_left
      in split_loss_chg b d_step nid fid all_left c_right)"

definition put_right_loss_chg :: "Builder \<Rightarrow> int \<Rightarrow> int \<Rightarrow> nat \<Rightarrow> ThreadEntry \<Rightarrow> real" where
  "put_right_loss_chg b d_step nid fid e =
     (let all_right = SetSubstract (node_stats (snode b nid)) (stats_c_left e)
      in split_loss_chg b d_step nid fid (stats_c_left e) all_right)"

definition swap_loss_chg :: "Builder \<Rightarrow> int \<Rightarrow> int \<Rightarrow> nat \<Rightarrow> ThreadEntry \<Rightarrow> real" where
  "swap_loss_chg b d_step nid fid e =
     (let swap_left = SetUnion (stats_c_left e) (stats_unc_right e);
          swap_right = SetSubstract (node_stats (snode b nid)) swap_left
      in split_loss_chg b d_step nid fid swap_left swap_right)"

definition nominal_loss_chg :: "Builder \<Rightarrow> int \<Rightarrow> int \<Rightarrow> nat \<Rightarrow> ThreadEntry \<Rightarrow> real" where
  "nominal_loss_chg b d_step nid fid e =
     (let c = SetSubstract (node_stats (snode b nid)) (stats_left e)
      in split_loss_chg b d_step nid fid (stats_left e) c)"

definition robust_loss_chg :: "Builder \<Rightarrow> int \<Rightarrow> int \<Rightarrow> nat \<Rightarrow> ThreadEntry \<Rightarrow> real" where
  "robust_loss_chg b d_step nid fid e =
     (let loss = nominal_loss_chg b d_step nid fid e in
      if length (data_unc e) > 0
      then
        let l1 = put_left_loss_chg b d_step nid fid e;
            loss = (if l1 < loss then l1 else loss);
            l2 = put_right_loss_chg b d_step nid fid e;
            loss = (if l2 < loss then l2 else loss);
            l3 = swap_loss_chg b d_step nid fid e;
            loss = (if l3 < loss then l3 else loss)
        in loss
      else loss)"

definition try_split ::
  "Builder \<Rightarrow> int \<Rightarrow> nat \<Rightarrow> int \<Rightarrow> real \<Rightarrow> real \<Rightarrow> ThreadEntry \<Rightarrow> ThreadEntry" where
  "try_split b d_step fid nid fv eta e =
     (if fv \<noteq> last_fvalue e \<and> sum_hess (stats e) \<ge> min_child_weight b
      then
        let c = SetSubstract (node_stats (snode b nid)) (stats_left e) in
        if sum_hess c \<ge> min_child_weight b
        then e\<lparr>best := Update (best e) (robust_loss_chg b d_step nid fid e) fid eta
                         (d_step = -1)\<rparr>
        else e
      else e)"

text \<open>
  The first-hit branch and the end of the other branch perform the same six statements:
  add the row to \<open>stats\<close>, \<open>stats_unc_right\<close> and \<open>stats_unc\<close>, push the entry on both queues,
  and record its value as \<open>last_fvalue\<close>.
\<close>

definition absorb :: "(nat \<Rightarrow> GradientPair) \<Rightarrow> EntryPtr \<Rightarrow> ThreadEntry \<Rightarrow> ThreadEntry" where
  "absorb gpair it e =
     e\<lparr>stats := Add (stats e) (gpair (index (snd it))),
       last_fvalue := fvalue (snd it),
       data_unc_right := data_unc_right e @ [it],
       data_unc := data_unc e @ [it],
       stats_unc_right := Add (stats_unc_right e) (gpair (index (snd it))),
       stats_unc := Add (stats_unc e) (gpair (index (snd it)))\<rparr>"

definition drain_both :: "(nat \<Rightarrow> GradientPair) \<Rightarrow> real \<Rightarrow> real \<Rightarrow> ThreadEntry \<Rightarrow> ThreadEntry" where
  "drain_both gpair eta bound e =
     (let e = drain_unc_right gpair eta (data_unc_right e) e
      in drain_unc gpair bound (data_unc e) e)"

definition sweep_entry ::
  "Builder \<Rightarrow> int \<Rightarrow> nat \<Rightarrow> (nat \<Rightarrow> GradientPair) \<Rightarrow> (int \<Rightarrow> ThreadEntry) \<Rightarrow> EntryPtr
     \<Rightarrow> (int \<Rightarrow> ThreadEntry)" where
  "sweep_entry b d_step fid gpair temp it =
     (let ridx = index (snd it); nid = position b ridx in
      if nid < 0 then temp
      else
        let fv = fvalue (snd it); eps = robust_eps b; eta = fsub b fv eps; e = temp nid in
        if Empty (stats e) then temp(nid := absorb gpair it e)
        else
          let e = drain_both gpair eta (fsub b eta eps) e;
              e = try_split b d_step fid nid fv eta e
          in temp(nid := absorb gpair it e))"

definition main_sweep ::
  "Builder \<Rightarrow> int \<Rightarrow> nat \<Rightarrow> (nat \<Rightarrow> GradientPair) \<Rightarrow> (int \<Rightarrow> ThreadEntry) \<Rightarrow> EntryPtr list
     \<Rightarrow> (int \<Rightarrow> ThreadEntry)" where
  "main_sweep b d_step fid gpair temp its = foldl (sweep_entry b d_step fid gpair) temp its"

subsection \<open>EnumerateSplit: closing pass\<close>

definition closing_node :: "Builder \<Rightarrow> int \<Rightarrow> nat \<Rightarrow> int \<Rightarrow> ThreadEntry \<Rightarrow> ThreadEntry" where
  "closing_node b d_step fid nid e =
     (let c = SetSubstract (node_stats (snode b nid)) (stats e) in
      if sum_hess (stats e) \<ge> min_child_weight b \<and> sum_hess c \<ge> min_child_weight b
      then
        let loss = split_loss_chg b d_step nid fid (stats e) c;
            gap = \<bar>last_fvalue e\<bar> + kRtEps b + robust_eps b;
            delta = (if d_step = 1 then gap else - gap)
        in e\<lparr>best := Update (best e) loss fid (last_fvalue e + delta) (d_step = -1)\<rparr>
      else e)"

fun closing_pass ::
  "Builder \<Rightarrow> int \<Rightarrow> nat \<Rightarrow> int list \<Rightarrow> (int \<Rightarrow> ThreadEntry) \<Rightarrow> (int \<Rightarrow> ThreadEntry)" where
  "closing_pass b d_step fid [] temp = temp"
| "closing_pass b d_step fid (nid # q) temp =
     closing_pass b d_step fid q (temp(nid := closing_node b d_step fid nid (temp nid)))"

subsection \<open>EnumerateSplit: moving thresholds to midpoints\<close>

record MidState =
  mtemp :: "int \<Rightarrow> ThreadEntry"
  last_fvalue_map :: "int \<rightharpoonup> real"
  updated_nid :: "int set"

definition midpoint_entry :: "Builder \<Rightarrow> nat \<Rightarrow> MidState \<Rightarrow> EntryPtr \<Rightarrow> MidState" where
  "midpoint_entry b fid s it =
     (let ridx = index (snd it); nid = position b ridx in
      if nid < 0 then s
      else
        let e = mtemp s nid in
        if SplitIndex (best e) \<noteq> fid \<or> nid \<in> updated_nid s then s
        else
          let s = (case last_fvalue_map s nid of
                     None \<Rightarrow> s
                   | Some lv \<Rightarrow>
                       if lv < split_value (best e) \<and> split_value (best e) \<le> fvalue (snd it)
                       then s\<lparr>mtemp := (mtemp s)(nid :=
                                e\<lparr>best := update_split_value (best e)
                                     ((fvalue (snd it) + lv) * 0.5)\<rparr>),
                              updated_nid := insert nid (updated_nid s)\<rparr>
                       else s)
          in s\<lparr>last_fvalue_map := (last_fvalue_map s)(nid \<mapsto> fvalue (snd it))\<rparr>)"

definition midpoint_pass ::
  "Builder \<Rightarrow> nat \<Rightarrow> MidState \<Rightarrow> EntryPtr list \<Rightarrow> MidState" where
  "midpoint_pass b fid s its = foldl (midpoint_entry b fid) s its"

definition EnumerateSplit ::
  "Builder \<Rightarrow> Entry list \<Rightarrow> int \<Rightarrow> nat \<Rightarrow> (nat \<Rightarrow> GradientPair) \<Rightarrow> (int \<Rightarrow> ThreadEntry)
     \<Rightarrow> (int \<Rightarrow> ThreadEntry)" where
  "EnumerateSplit b col d_step fid gpair temp =
     (let its = scan_order col;
          temp = clear_temp (qexpand b) temp;
          temp = main_sweep b d_step fid gpair temp its;
          temp = closing_pass b d_step fid (qexpand b) temp;
          s = midpoint_pass b fid
                \<lparr>mtemp = temp, last_fvalue_map = Map.empty, updated_nid = {}\<rparr> its
      in mtemp s)"

subsection \<open>The non-robust enumeration kept in the same file\<close>

definition UpdateEnumeration ::
  "Builder \<Rightarrow> int \<Rightarrow> GradientPair \<Rightarrow> real \<Rightarrow> int \<Rightarrow> nat \<Rightarrow> (int \<Rightarrow> ThreadEntry)
     \<Rightarrow> (int \<Rightarrow> ThreadEntry)" where
  "UpdateEnumeration b nid gstats fv d_step fid temp =
     (let e = temp nid in
      if Empty (stats e)
      then temp(nid := e\<lparr>stats := Add (stats e) gstats, last_fvalue := fv\<rparr>)
      else
        let e =
          (if fv \<noteq> last_fvalue e \<and> sum_hess (stats e) \<ge> min_child_weight b
           then
             let c = SetSubstract (node_stats (snode b nid)) (stats e) in
             if sum_hess c \<ge> min_child_weight b
             then e\<lparr>best := Update (best e) (split_loss_chg b d_step nid fid (stats e) c) fid
                              ((fv + last_fvalue e) * 0.5) (d_step = -1)\<rparr>
             else e
           else e)
        in temp(nid := e\<lparr>stats := Add (stats e) gstats, last_fvalue := fv\<rparr>))"

fun clear_stats :: "int list \<Rightarrow> (int \<Rightarrow> ThreadEntry) \<Rightarrow> (int \<Rightarrow> ThreadEntry)" where
  "clear_stats [] temp = temp"
| "clear_stats (nid # q) temp = clear_stats q (temp(nid := (temp nid)\<lparr>stats := Clear\<rparr>))"

definition closing_node_std :: "Builder \<Rightarrow> int \<Rightarrow> nat \<Rightarrow> int \<Rightarrow> ThreadEntry \<Rightarrow> ThreadEntry" where
  "closing_node_std b d_step fid nid e =
     (let c = SetSubstract (node_stats (snode b nid)) (stats e) in
      if sum_hess (stats e) \<ge> min_child_weight b \<and> sum_hess c \<ge> min_child_weight b
      then
        let loss = split_loss_chg b d_step nid fid (stats e) c;
            gap = \<bar>last_fvalue e\<bar> + kRtEps b;
            delta = (if d_step = 1 then gap else - gap)
        in e\<lparr>best := Update (best e) loss fid (last_fvalue e + delta) (d_step = -1)\<rparr>
      else e)"

fun closing_pass_std ::
  "Builder \<Rightarrow> int \<Rightarrow> nat \<Rightarrow> int list \<Rightarrow> (int \<Rightarrow> ThreadEntry) \<Rightarrow> (int \<Rightarrow> ThreadEntry)" where
  "closing_pass_std b d_step fid [] temp = temp"
| "closing_pass_std b d_step fid (nid # q) temp =
     closing_pass_std b d_step fid q
       (temp(nid := closing_node_std b d_step fid nid (temp nid)))"

text \<open>
  \<open>EnumerateSplitCacheOpt\<close> reads positions and gradient pairs through a buffer of 32
  entries; the values it passes to \<open>UpdateEnumeration\<close> are those of a plain walk from
  \<open>begin\<close> to \<open>end\<close>, which is what the model performs.
\<close>

definition cache_opt_entry ::
  "Builder \<Rightarrow> int \<Rightarrow> nat \<Rightarrow> (nat \<Rightarrow> GradientPair) \<Rightarrow> (int \<Rightarrow> ThreadEntry) \<Rightarrow> Entry
     \<Rightarrow> (int \<Rightarrow> ThreadEntry)" where
  "cache_opt_entry b d_step fid gpair temp p =
     (let nid = position b (index p) in
      if nid < 0 then temp
      else UpdateEnumeration b nid (gpair (index p)) (fvalue p) d_step fid temp)"

definition EnumerateSplitCacheOpt ::
  "Builder \<Rightarrow> Entry list \<Rightarrow> int \<Rightarrow> nat \<Rightarrow> (nat \<Rightarrow> GradientPair) \<Rightarrow> (int \<Rightarrow> ThreadEntry)
     \<Rightarrow> (int \<Rightarrow> ThreadEntry)" where
  "EnumerateSplitCacheOpt b col d_step fid gpair temp =
     (let temp = clear_stats (qexpand b) temp;
          temp = foldl (cache_opt_entry b d_step fid gpair) temp col
      in closing_pass_std b d_step fid (qexpand b) temp)"

subsection \<open>The tree and the commit phase of FindSplit\<close>

text \<open>
  Modelled from the spec: \<open>RegTree\<close> and its nodes are declared in tree\_model.h, which is
  not part of the sources at hand. Section 9 of the specification gives the tree as an
  index-addressable array of nodes with parent and child ids; a node is a leaf when it has
  no left child (id \<open>-1\<close>); adding children appends two nodes.
\<close>

record Node =
  parent :: int
  cleft :: int
  cright :: int
  sindex :: nat
  node_default_left :: bool
  info :: real

type_synonym RegTree = "Node list"

definition IsLeaf :: "Node \<Rightarrow> bool" where
  "IsLeaf n \<longleftrightarrow> cleft n = -1"

definition SetLeaf :: "Node \<Rightarrow> real \<Rightarrow> int \<Rightarrow> Node" where
  "SetLeaf n v right = n\<lparr>info := v, cleft := -1, cright := right\<rparr>"

definition SetSplit :: "Node \<Rightarrow> nat \<Rightarrow> real \<Rightarrow> bool \<Rightarrow> Node" where
  "SetSplit n split_index split_cond default_left =
     n\<lparr>sindex := split_index, node_default_left := default_left, info := split_cond\<rparr>"

definition new_node :: "int \<Rightarrow> Node" where
  "new_node pid = \<lparr>parent = pid, cleft = -1, cright = -1, sindex = 0,
                   node_default_left = False, info = 0\<rparr>"

definition AddChilds :: "RegTree \<Rightarrow> int \<Rightarrow> RegTree" where
  "AddChilds tree nid =
     (let pleft = int (length tree); pright = pleft + 1;
          tree = tree @ [new_node nid, new_node nid]
      in tree[nat nid := (tree ! nat nid)\<lparr>cleft := pleft, cright := pright\<rparr>])"

definition commit_node :: "Builder \<Rightarrow> RegTree \<Rightarrow> int \<Rightarrow> RegTree" where
  "commit_node b tree nid =
     (let e = snode b nid in
      if loss_chg (node_best e) > kRtEps b
      then
        let tree = AddChilds tree nid;
            tree = tree[nat nid := SetSplit (tree ! nat nid) (SplitIndex (node_best e))
                                     (split_value (node_best e)) (DefaultLeft (node_best e))];
            l = nat (cleft (tree ! nat nid));
            tree = tree[l := SetLeaf (tree ! l) 0 0];
            r = nat (cright (tree ! nat nid));
            tree = tree[r := SetLeaf (tree ! r) 0 0]
        in tree
      else tree[nat nid := SetLeaf (tree ! nat nid) (weight e * learning_rate b) (-1)])"

definition commit :: "Builder \<Rightarrow> RegTree \<Rightarrow> int list \<Rightarrow> RegTree" where
  "commit b tree q = foldl (commit_node b) tree q"

subsection \<open>ResetPosition\<close>

definition nondefault_row :: "RegTree \<Rightarrow> nat \<Rightarrow> (nat \<Rightarrow> int) \<Rightarrow> Entry \<Rightarrow> (nat \<Rightarrow> int)" where
  "nondefault_row tree fid pos ent =
     (let ridx = index ent; nid = DecodePosition pos ridx; fv = fvalue ent;
          node = tree ! nat nid in
      if \<not> IsLeaf node \<and> sindex node = fid
      then (if fv < info node then SetEncodePosition pos ridx (cleft node)
            else SetEncodePosition pos ridx (cright node))
      else pos)"

definition default_row :: "RegTree \<Rightarrow> (nat \<Rightarrow> int) \<Rightarrow> nat \<Rightarrow> (nat \<Rightarrow> int)" where
  "default_row tree pos ridx =
     (let nid = DecodePosition pos ridx; node = tree ! nat nid in
      if IsLeaf node
      then (if cright node = -1 then pos(ridx := NOT nid) else pos)
      else (if node_default_left node then SetEncodePosition pos ridx (cleft node)
            else SetEncodePosition pos ridx (cright node)))"

section \<open>Invariants and auxiliary notions\<close>

definition fresh_leaf :: "int \<Rightarrow> Node" where
  "fresh_leaf pid = \<lparr>parent = pid, cleft = -1, cright = 0, sindex = 0,
                     node_default_left = False, info = 0\<rparr>"

text \<open>
  The shape of the two queues of one node after \<open>n\<close> entries of the column have been
  scanned: \<open>data_unc_right\<close> is a suffix of \<open>data_unc\<close>, the entries are in scan order, and
  all of them have been scanned.
\<close>

definition queues_ok :: "nat \<Rightarrow> ThreadEntry \<Rightarrow> bool" where
  "queues_ok n e \<longleftrightarrow>
     suffix (data_unc_right e) (data_unc e) \<and>
     sorted_wrt (<) (map fst (data_unc e)) \<and>
     (\<forall>p \<in> set (data_unc e). fst p < n)"

text \<open>
  The accumulators of one node agree with its queues: \<open>stats_unc\<close> and \<open>stats_unc_right\<close>
  are the sums over the entries held by \<open>data_unc\<close> and \<open>data_unc_right\<close>, and what has
  left \<open>data_unc_right\<close> (\<open>stats_left\<close>) and what has left \<open>data_unc\<close> (\<open>stats_c_left\<close>)
  differ by what is in one queue and not in the other.
\<close>

definition sums_ok :: "(nat \<Rightarrow> GradientPair) \<Rightarrow> ThreadEntry \<Rightarrow> bool" where
  "sums_ok gpair e \<longleftrightarrow>
     sum_grad (stats_unc e) = (\<Sum>p\<leftarrow>data_unc e. grad (gpair (index (snd p)))) \<and>
     sum_hess (stats_unc e) = (\<Sum>p\<leftarrow>data_unc e. hess (gpair (index (snd p)))) \<and>
     sum_grad (stats_unc_right e) = (\<Sum>p\<leftarrow>data_unc_right e. grad (gpair (index (snd p)))) \<and>
     sum_hess (stats_unc_right e) = (\<Sum>p\<leftarrow>data_unc_right e. hess (gpair (index (snd p)))) \<and>
     sum_grad (stats_left e) + sum_grad (stats_unc_right e) =
       sum_grad (stats_c_left e) + sum_grad (stats_unc e) \<and>
     sum_hess (stats_left e) + sum_hess (stats_unc_right e) =
       sum_hess (stats_c_left e) + sum_hess (stats_unc e)"


text \<open>
  Modelled from the spec: the loss change of the partition whose left side is \<open>left\<close> and
  whose right side is the complement \<open>snode[n].stats - left\<close>, step 6 of the main sweep:
  \<open>loss_chg = split_score(left, right) - root_gain\<close>. The four candidate partitions have the
  left sides \<open>stats_left\<close> (nominal), \<open>stats_c_left \<union> stats_unc\<close> (all uncertain left),
  \<open>stats_c_left\<close> (all uncertain right) and \<open>stats_c_left \<union> stats_unc_right\<close> (swap).
\<close>

definition partition_loss_chg :: "Builder \<Rightarrow> int \<Rightarrow> nat \<Rightarrow> GradStats \<Rightarrow> real" where
  "partition_loss_chg b nid fid left =
     ComputeSplitScore b nid fid left (SetSubstract (node_stats (snode b nid)) left) -
     root_gain (snode b nid)"




text \<open>
  What the two enumerations do to the entry of one node: only the entries of the column that
  sit at the node (with a non-negative position) change it.
\<close>

definition at_node :: "Builder \<Rightarrow> int \<Rightarrow> Entry \<Rightarrow> bool" where
  "at_node b nid p \<longleftrightarrow> 0 \<le> nid \<and> position b (index p) = nid"

definition robust_node_step ::
  "Builder \<Rightarrow> int \<Rightarrow> nat \<Rightarrow> (nat \<Rightarrow> GradientPair) \<Rightarrow> int \<Rightarrow> ThreadEntry \<Rightarrow> EntryPtr
     \<Rightarrow> ThreadEntry" where
  "robust_node_step b d_step fid gpair nid e it =
     (if Empty (stats e) then absorb gpair it e
      else absorb gpair it
             (try_split b d_step fid nid (fvalue (snd it)) (fsub b (fvalue (snd it)) (robust_eps b))
                (drain_both gpair (fsub b (fvalue (snd it)) (robust_eps b))
            (fsub b (fsub b (fvalue (snd it)) (robust_eps b)) (robust_eps b)) e)))"

definition std_node_step ::
  "Builder \<Rightarrow> int \<Rightarrow> nat \<Rightarrow> (nat \<Rightarrow> GradientPair) \<Rightarrow> int \<Rightarrow> ThreadEntry \<Rightarrow> Entry
     \<Rightarrow> ThreadEntry" where
  "std_node_step b d_step fid gpair nid e p =
     (if \<not> Empty (stats e) \<and> fvalue p \<noteq> last_fvalue e \<and>
         min_child_weight b \<le> sum_hess (stats e) \<and>
         min_child_weight b \<le> sum_hess (SetSubstract (node_stats (snode b nid)) (stats e))
      then e\<lparr>best := Update (best e)
                 (split_loss_chg b d_step nid fid (stats e)
                    (SetSubstract (node_stats (snode b nid)) (stats e)))
                 fid ((fvalue p + last_fvalue e) * 0.5) (d_step = -1),
             stats := Add (stats e) (gpair (index p)), last_fvalue := fvalue p\<rparr>
      else e\<lparr>stats := Add (stats e) (gpair (index p)), last_fvalue := fvalue p\<rparr>)"

text \<open>
  What the midpoint pass does to a threshold \<open>thr\<close> of one node, given the values of the
  node's entries in scan order: the first pair of consecutive values \<open>a\<close>, \<open>c\<close> with
  \<open>a < thr \<le> c\<close> yields the midpoint; \<open>moved_best\<close> stores it in a split entry.
\<close>

fun midfix :: "real option \<Rightarrow> real \<Rightarrow> real list \<Rightarrow> real option" where
  "midfix prev thr [] = None"
| "midfix prev thr (c # cs) =
     (case prev of
        None \<Rightarrow> midfix (Some c) thr cs
      | Some a \<Rightarrow> if a < thr \<and> thr \<le> c then Some ((c + a) * 0.5) else midfix (Some c) thr cs)"

definition moved_best :: "SplitEntry \<Rightarrow> real option \<Rightarrow> SplitEntry" where
  "moved_best be mo = (case mo of None \<Rightarrow> be | Some m \<Rightarrow> be\<lparr>split_value := m\<rparr>)"

text \<open>
  Invariants of the robust scan state of one node, relative to the values \<open>vals\<close> of the
  node's entries scanned so far, and the relation between the robust and the non-robust scan
  state of a node used for the comparison at \<open>eps = 0\<close>.
\<close>

definition bal :: "ThreadEntry \<Rightarrow> bool" where
  "bal e \<longleftrightarrow>
     sum_grad (stats e) = sum_grad (stats_left e) + sum_grad (stats_unc_right e) \<and>
     sum_hess (stats e) = sum_hess (stats_left e) + sum_hess (stats_unc_right e)"

definition scanned_ok :: "(nat \<Rightarrow> GradientPair) \<Rightarrow> real list \<Rightarrow> ThreadEntry \<Rightarrow> bool" where
  "scanned_ok gpair vals e \<longleftrightarrow>
     sums_ok gpair e \<and> bal e \<and>
     (\<forall>p \<in> set (data_unc_right e). fvalue (snd p) \<le> last_fvalue e) \<and>
     (\<forall>p \<in> set (data_unc e). fvalue (snd p) \<le> last_fvalue e) \<and>
     (vals \<noteq> [] \<longrightarrow> last vals = last_fvalue e) \<and>
     (vals = [] \<longrightarrow> Empty (stats e) \<and> data_unc e = [] \<and> data_unc_right e = [])"

definition best_rel ::
  "nat \<Rightarrow> SplitEntry \<Rightarrow> real list \<Rightarrow> real \<Rightarrow> SplitEntry \<Rightarrow> SplitEntry \<Rightarrow> bool" where
  "best_rel fid b0 vals lastv br bs \<longleftrightarrow>
     (br = b0 \<and> bs = b0) \<or>
     (SplitIndex br = fid \<and> bs = br\<lparr>split_value := split_value bs\<rparr> \<and>
      midfix None (split_value br) vals = Some (split_value bs) \<and>
      split_value br \<le> lastv \<and> split_value bs \<le> lastv)"

definition node_sim ::
  "nat \<Rightarrow> (nat \<Rightarrow> GradientPair) \<Rightarrow> SplitEntry \<Rightarrow> real list \<Rightarrow> ThreadEntry \<Rightarrow> ThreadEntry
     \<Rightarrow> bool" where
  "node_sim fid gpair b0 vals er es \<longleftrightarrow>
     stats er = stats es \<and> last_fvalue er = last_fvalue es \<and>
     scanned_ok gpair vals er \<and>
     best_rel fid b0 vals (last_fvalue er) (best er) (best es)"

section \<open>Concrete data used in the examples\<close>

definition newton_gain :: "GradStats \<Rightarrow> real" where
  "newton_gain s = sum_grad s * sum_grad s / (sum_hess s + 1)"

definition entry0 :: ThreadEntry where
  "entry0 = \<lparr>stats = Clear, stats_left = Clear, stats_c_left = Clear, c_left_counter = 0,
     stats_unc_right = Clear, stats_unc = Clear, stats_extra = Clear,
     data_unc_right = [], data_unc = [], last_fvalue = 0, first_fvalue = 0,
     best = SplitEntry0\<rparr>"

definition example_builder :: "real \<Rightarrow> real \<Rightarrow> GradStats \<Rightarrow> Builder" where
  "example_builder mcw eps tot =
     \<lparr>min_child_weight = mcw, robust_eps = eps, learning_rate = 1, kRtEps = 1 / 1000000,
      ComputeSplitScore = (\<lambda>nid fid l r. newton_gain l + newton_gain r),
      fsub = (\<lambda>x y. x - y),
      position = (\<lambda>ridx. 0),
      snode = (\<lambda>nid. \<lparr>node_stats = tot, root_gain = newton_gain tot, weight = 0,
                        node_best = SplitEntry0\<rparr>),
      qexpand = [0]\<rparr>"

definition mk_gpair :: "real \<Rightarrow> real \<Rightarrow> GradientPair" where
  "mk_gpair g h = \<lparr>grad = g, hess = h\<rparr>"

definition mk_entry :: "nat \<Rightarrow> real \<Rightarrow> Entry" where
  "mk_entry i v = \<lparr>index = i, fvalue = v\<rparr>"

definition mk_stats :: "real \<Rightarrow> real \<Rightarrow> GradStats" where
  "mk_stats g h = \<lparr>sum_grad = g, sum_hess = h\<rparr>"

definition temp3 :: "int \<Rightarrow> ThreadEntry" where
  "temp3 = (\<lambda>nid. entry0\<lparr>stats := mk_stats 2 2, stats_unc_right := mk_stats 2 2, stats_unc := mk_stats 2 2,
      data_unc_right := [(0, mk_entry 0 1), (1, mk_entry 1 2)], data_unc := [(0, mk_entry 0 1), (1, mk_entry 1 2)],
      last_fvalue := 2\<rparr>)"

definition tree3 :: RegTree where
  "tree3 = [\<lparr>parent = -1, cleft = 1, cright = 2, sindex = 0, node_default_left = True, info = 5\<rparr>,
            \<lparr>parent = 0, cleft = -1, cright = 0, sindex = 0, node_default_left = False, info = 0\<rparr>,
            \<lparr>parent = 0, cleft = -1, cright = 0, sindex = 0, node_default_left = False, info = 0\<rparr>]"

definition tree1 :: RegTree where
  "tree1 = [\<lparr>parent = -1, cleft = -1, cright = 0, sindex = 0, node_default_left = False, info = 0\<rparr>,
            \<lparr>parent = -1, cleft = -1, cright = 0, sindex = 0, node_default_left = False, info = 0\<rparr>]"

definition commit_builder :: Builder where
  "commit_builder = (example_builder 1 0 (mk_stats 0 4))
     \<lparr>learning_rate := 1 / 2,
      snode := (\<lambda>nid. \<lparr>node_stats = mk_stats 0 4, root_gain = 0, weight = 3,
                  node_best = (if nid = 0
                     then \<lparr>loss_chg = 2, SplitIndex = 4, split_value = 7, DefaultLeft = True\<rparr>
                     else SplitEntry0)\<rparr>)\<rparr>"

definition mid_temp1 :: "int \<Rightarrow> ThreadEntry" where
  "mid_temp1 = (\<lambda>nid. entry0\<lparr>best :=
        \<lparr>loss_chg = 2, SplitIndex = 3, split_value = 4, DefaultLeft = True\<rparr>\<rparr>)"

definition col123 :: "Entry list" where
  "col123 = [mk_entry 0 1, mk_entry 1 2, mk_entry 2 3]"



definition cx_col :: "Entry list" where
  "cx_col = [mk_entry 0 1, mk_entry 1 3]"



text \<open>
  The same two values with \<open>eps = 1/2\<close>, \<open>min_child_weight = 0\<close> and a first row whose
  hessian is 0: the gradient pairs are \<open>(2, 0)\<close> and \<open>(-2, 1)\<close>. \<open>zh_e\<close> is what the two
  drains would make of the scan state of the root at the second entry, where \<open>eta = 5/2\<close>
  and \<open>eta - eps = 2\<close>.
\<close>

definition zh_builder :: Builder where
  "zh_builder = example_builder 0 (1/2) (mk_stats 0 1)"

definition zh_gpair :: "nat \<Rightarrow> GradientPair" where
  "zh_gpair i = (if i = 0 then mk_gpair 2 0 else mk_gpair (-2) 1)"









text \<open>
  Data for the comparison with the non-robust enumeration at \<open>eps = 0\<close>: three rows with
  values 1, 2, 3 and a fourth row of the same node that has no value in the column.
\<close>

definition c8_builder :: Builder where
  "c8_builder = example_builder 1 0 (mk_stats (-2) 4)"

definition c8_gpair :: "nat \<Rightarrow> GradientPair" where
  "c8_gpair i = (if i = 0 then mk_gpair 1 1 else if i = 1 then mk_gpair 1 1
                 else if i = 2 then mk_gpair (-1) 1 else mk_gpair (-3) 1)"

definition c8_temp :: "int \<Rightarrow> ThreadEntry" where
  "c8_temp nid = entry0"


section \<open>Properties\<close>

subsection \<open>Reset of the scan state\<close>

lemma clear_temp_notin: "nid \<notin> set q \<Longrightarrow> clear_temp q temp nid = temp nid"
  by (induction q arbitrary: temp) auto

lemma clear_node_idem: "clear_node (clear_node e) = clear_node e"
  by (simp add: clear_node_def)

lemma clear_temp_in: "nid \<in> set q \<Longrightarrow> clear_temp q temp nid = clear_node (temp nid)"
proof (induction q arbitrary: temp)
  case Nil
  then show ?case by simp
next
  case (Cons a q)
  show ?case
  proof (cases "nid \<in> set q")
    case True
    then have "clear_temp q (temp(a := clear_node (temp a))) nid =
        clear_node ((temp(a := clear_node (temp a))) nid)"
      by (rule Cons.IH)
    then show ?thesis by (cases "nid = a") (simp_all add: clear_node_idem)
  next
    case False
    then have "nid = a" using Cons.prems by simp
    then show ?thesis using False by (simp add: clear_temp_notin)
  qed
qed

text \<open>
  C7. At the start of an enumeration over a column, for each frontier node exactly the
  eight scan-state fields \<open>stats\<close>, \<open>stats_left\<close>, \<open>stats_c_left\<close>, \<open>stats_unc\<close>,
  \<open>stats_unc_right\<close>, \<open>data_unc_right\<close>, \<open>data_unc\<close> and \<open>c_left_counter\<close> are cleared;
  \<open>best\<close> (and every other field) of the entry keeps its value, and the entries of nodes
  outside the frontier are not touched.
\<close>

theorem reset_clears_eight_fields_keeps_best:
  "clear_temp q temp nid =
     (if nid \<in> set q
      then \<lparr>stats = Clear, stats_left = Clear, stats_c_left = Clear, c_left_counter = 0,
         stats_unc_right = Clear, stats_unc = Clear, stats_extra = stats_extra (temp nid),
         data_unc_right = [], data_unc = [], last_fvalue = last_fvalue (temp nid),
         first_fvalue = first_fvalue (temp nid), best = best (temp nid)\<rparr>
      else temp nid)"
  by (simp add: clear_temp_in clear_temp_notin clear_node_def)

subsection \<open>Draining the queues\<close>

lemma try_split_cases:
  "try_split b d fid nid fv eta e = e \<or>
   try_split b d fid nid fv eta e =
     e\<lparr>best := Update (best e) (robust_loss_chg b d nid fid e) fid eta (d = -1)\<rparr>"
  unfolding try_split_def Let_def by auto

lemma try_split_fields:
  "stats (try_split b d fid nid fv eta e) = stats e"
  "stats_left (try_split b d fid nid fv eta e) = stats_left e"
  "stats_c_left (try_split b d fid nid fv eta e) = stats_c_left e"
  "c_left_counter (try_split b d fid nid fv eta e) = c_left_counter e"
  "stats_unc_right (try_split b d fid nid fv eta e) = stats_unc_right e"
  "stats_unc (try_split b d fid nid fv eta e) = stats_unc e"
  "data_unc_right (try_split b d fid nid fv eta e) = data_unc_right e"
  "data_unc (try_split b d fid nid fv eta e) = data_unc e"
  "last_fvalue (try_split b d fid nid fv eta e) = last_fvalue e"
  using try_split_cases [of b d fid nid fv eta e] by auto

lemma drain_unc_right_char:
  "drain_unc_right gpair eta q e =
     e\<lparr>stats_left := foldl Add (stats_left e)
          (map (\<lambda>p. gpair (index (snd p))) (takeWhile (\<lambda>p. fvalue (snd p) < eta) q)),
       stats_unc_right := foldl Subtract (stats_unc_right e)
          (map (\<lambda>p. gpair (index (snd p))) (takeWhile (\<lambda>p. fvalue (snd p) < eta) q)),
       data_unc_right := dropWhile (\<lambda>p. fvalue (snd p) < eta) q\<rparr>"
  by (induction q arbitrary: e) simp_all

lemma drain_unc_char:
  "drain_unc gpair bound q e =
     e\<lparr>stats_c_left := foldl Add (stats_c_left e)
          (map (\<lambda>p. gpair (index (snd p))) (takeWhile (\<lambda>p. fvalue (snd p) < bound) q)),
       c_left_counter := c_left_counter e + of_nat (length (takeWhile (\<lambda>p. fvalue (snd p) < bound) q)),
       stats_unc := foldl Subtract (stats_unc e)
          (map (\<lambda>p. gpair (index (snd p))) (takeWhile (\<lambda>p. fvalue (snd p) < bound) q)),
       data_unc := dropWhile (\<lambda>p. fvalue (snd p) < bound) q\<rparr>"
  by (induction q arbitrary: e) (simp_all add: algebra_simps)

lemma drain_both_char:
  "drain_both gpair eta bound e =
     e\<lparr>stats_left := foldl Add (stats_left e)
          (map (\<lambda>p. gpair (index (snd p))) (takeWhile (\<lambda>p. fvalue (snd p) < eta) (data_unc_right e))),
       stats_unc_right := foldl Subtract (stats_unc_right e)
          (map (\<lambda>p. gpair (index (snd p))) (takeWhile (\<lambda>p. fvalue (snd p) < eta) (data_unc_right e))),
       data_unc_right := dropWhile (\<lambda>p. fvalue (snd p) < eta) (data_unc_right e),
       stats_c_left := foldl Add (stats_c_left e)
          (map (\<lambda>p. gpair (index (snd p))) (takeWhile (\<lambda>p. fvalue (snd p) < bound) (data_unc e))),
       c_left_counter := c_left_counter e + of_nat (length (takeWhile (\<lambda>p. fvalue (snd p) < bound) (data_unc e))),
       stats_unc := foldl Subtract (stats_unc e)
          (map (\<lambda>p. gpair (index (snd p))) (takeWhile (\<lambda>p. fvalue (snd p) < bound) (data_unc e))),
       data_unc := dropWhile (\<lambda>p. fvalue (snd p) < bound) (data_unc e)\<rparr>"
  unfolding drain_both_def Let_def drain_unc_right_char drain_unc_char by simp

lemma sweep_entry_non_first:
  assumes "0 \<le> position b (index (snd it))"
    and "\<not> Empty (stats (temp (position b (index (snd it)))))"
  shows "sweep_entry b d_step fid gpair temp it (position b (index (snd it))) =
     absorb gpair it
       (try_split b d_step fid (position b (index (snd it))) (fvalue (snd it))
          (fsub b (fvalue (snd it)) (robust_eps b))
          (drain_both gpair (fsub b (fvalue (snd it)) (robust_eps b))
            (fsub b (fsub b (fvalue (snd it)) (robust_eps b)) (robust_eps b))
             (temp (position b (index (snd it))))))"
  using assms unfolding sweep_entry_def Let_def by simp


text \<open>
  C3, as stated, fails when the first row of a node has hessian 0. The code's test for a
  first hit is that the running \<open>stats\<close> are empty (\<open>sum_hess = 0\<close>, line 651), so the
  second entry of the node takes the first-hit branch again. In the example (values 1 and 3,
  \<open>eps = 1/2\<close>) the second entry has \<open>eta = 5/2\<close> and \<open>eta - eps = 2\<close>, the head of both
  queues has the value 1, below both bounds, and nothing is popped: both queues hold both
  entries afterwards, \<open>stats_left\<close> and \<open>stats_c_left\<close> are still empty and
  \<open>c_left_counter\<close> is still 0.
\<close>

theorem zero_hessian_first_row_nothing_popped_counterexample:
  "scan_order cx_col ! 1 = (1, mk_entry 1 3) \<and>
   data_unc_right (main_sweep zh_builder 1 0 zh_gpair (clear_temp (qexpand zh_builder) (\<lambda>n. entry0))
      (take 1 (scan_order cx_col)) 0) = [(0, mk_entry 0 1)] \<and>
   data_unc (main_sweep zh_builder 1 0 zh_gpair (clear_temp (qexpand zh_builder) (\<lambda>n. entry0))
      (take 1 (scan_order cx_col)) 0) = [(0, mk_entry 0 1)] \<and>
   fsub zh_builder (fvalue (mk_entry 1 3)) (robust_eps zh_builder) = 5 / 2 \<and>
   fsub zh_builder (fsub zh_builder (fvalue (mk_entry 1 3)) (robust_eps zh_builder))
     (robust_eps zh_builder) = 2 \<and>
   fvalue (mk_entry 0 1) < 5 / 2 \<and> fvalue (mk_entry 0 1) < 2 \<and>
   data_unc_right (main_sweep zh_builder 1 0 zh_gpair (clear_temp (qexpand zh_builder) (\<lambda>n. entry0))
      (take 2 (scan_order cx_col)) 0) = [(0, mk_entry 0 1), (1, mk_entry 1 3)] \<and>
   data_unc (main_sweep zh_builder 1 0 zh_gpair (clear_temp (qexpand zh_builder) (\<lambda>n. entry0))
      (take 2 (scan_order cx_col)) 0) = [(0, mk_entry 0 1), (1, mk_entry 1 3)] \<and>
   stats_left (main_sweep zh_builder 1 0 zh_gpair (clear_temp (qexpand zh_builder) (\<lambda>n. entry0))
      (take 2 (scan_order cx_col)) 0) = Clear \<and>
   stats_c_left (main_sweep zh_builder 1 0 zh_gpair (clear_temp (qexpand zh_builder) (\<lambda>n. entry0))
      (take 2 (scan_order cx_col)) 0) = Clear \<and>
   c_left_counter (main_sweep zh_builder 1 0 zh_gpair (clear_temp (qexpand zh_builder) (\<lambda>n. entry0))
      (take 2 (scan_order cx_col)) 0) = 0"
  by code_simp

text \<open>
  C3, amended. At an entry \<open>(ridx, fvalue)\<close> of the main sweep at which the running \<open>stats\<close>
  of the node are not empty, with \<open>eta\<close> the single-precision difference \<open>fvalue - eps\<close>:
  the entries at the front of \<open>data_unc_right\<close> whose value is below \<open>eta\<close> are popped, their
  gradient pairs added to \<open>stats_left\<close> and subtracted from \<open>stats_unc_right\<close>; then the
  entries at the front of \<open>data_unc\<close> whose value is below the single-precision difference
  \<open>eta - eps\<close> are popped, their gradient pairs added to \<open>stats_c_left\<close> and subtracted from
  \<open>stats_unc\<close>, and \<open>c_left_counter\<close> incremented once for each. (The current entry is then
  pushed on both queues and added to both uncertain statistics.) The statement holds for
  every subtraction \<open>fsub\<close>.
\<close>

theorem sweep_entry_drains_queues:
  assumes "0 \<le> position b (index (snd it))"
    and "\<not> Empty (stats (temp (position b (index (snd it)))))"
  shows "let nid = position b (index (snd it)); e = temp nid; eps = robust_eps b;
             eta = fsub b (fvalue (snd it)) eps;
             moved = takeWhile (\<lambda>p. fvalue (snd p) < eta) (data_unc_right e);
             gone = takeWhile (\<lambda>p. fvalue (snd p) < fsub b eta eps) (data_unc e);
             g = (\<lambda>p. gpair (index (snd p)));
             e' = sweep_entry b d_step fid gpair temp it nid
         in data_unc_right e' =
              dropWhile (\<lambda>p. fvalue (snd p) < eta) (data_unc_right e) @ [it] \<and>
            stats_left e' = foldl Add (stats_left e) (map g moved) \<and>
            stats_unc_right e' = Add (foldl Subtract (stats_unc_right e) (map g moved)) (g it) \<and>
            data_unc e' = dropWhile (\<lambda>p. fvalue (snd p) < fsub b eta eps) (data_unc e) @ [it] \<and>
            stats_c_left e' = foldl Add (stats_c_left e) (map g gone) \<and>
            c_left_counter e' = c_left_counter e + of_nat (length gone) \<and>
            stats_unc e' = Add (foldl Subtract (stats_unc e) (map g gone)) (g it)"
  unfolding Let_def sweep_entry_non_first [where b=b and it=it and temp=temp, OF assms]
  by (simp add: absorb_def try_split_fields drain_both_char)

theorem sweep_entry_drains_queues_witness:
  "let b = example_builder 1 (1/2) (mk_stats 0 3); it = (2, mk_entry 2 3);
       e' = sweep_entry b 1 0 (\<lambda>i. mk_gpair 1 1) temp3 it 0
   in 0 \<le> position b (index (snd it)) \<and>
      \<not> Empty (stats (temp3 (position b (index (snd it))))) \<and>
      data_unc_right e' = [(2, mk_entry 2 3)] \<and> stats_left e' = mk_stats 2 2 \<and>
      stats_unc_right e' = mk_stats 1 1 \<and>
      data_unc e' = [(1, mk_entry 1 2), (2, mk_entry 2 3)] \<and> stats_c_left e' = mk_stats 1 1 \<and>
      c_left_counter e' = 1 \<and> stats_unc e' = mk_stats 2 2"
proof -
  have p: "position (example_builder 1 (1/2) (mk_stats 0 3)) (index (snd (2::nat, mk_entry 2 3))) = 0"
    by (simp add: example_builder_def)
  have h1: "0 \<le> position (example_builder 1 (1/2) (mk_stats 0 3)) (index (snd (2::nat, mk_entry 2 3)))"
    by (simp add: example_builder_def)
  have h2: "\<not> Empty (stats (temp3 (position (example_builder 1 (1/2) (mk_stats 0 3))
              (index (snd (2::nat, mk_entry 2 3))))))"
    by (simp add: example_builder_def temp3_def Empty_def mk_stats_def)
  have r: "robust_eps (example_builder 1 (1/2) (mk_stats 0 3)) = 1/2"
    by (simp add: example_builder_def)
  have f: "fsub (example_builder 1 (1/2) (mk_stats 0 3)) = (\<lambda>x y. x - y)"
    by (simp add: example_builder_def)
  show ?thesis
    using h1 h2 sweep_entry_drains_queues [where b="example_builder 1 (1/2) (mk_stats 0 3)"
        and it="(2, mk_entry 2 3)" and temp=temp3 and d_step=1 and fid=0 and gpair="\<lambda>i. mk_gpair 1 1", OF h1 h2]
    unfolding Let_def p r f
    by (simp add: temp3_def mk_stats_def mk_entry_def mk_gpair_def entry0_def Add_def Subtract_def Clear_def)
qed

subsection \<open>Encoded positions\<close>

lemma Decode_nonneg: "0 \<le> DecodePosition pos ridx"
  by (simp add: DecodePosition_def Let_def)

text \<open>
  C10. Repositioning through \<open>SetEncodePosition\<close> (with a node id, which is non-negative)
  keeps the excluded/eligible status of the instance: a negative encoded position is replaced
  by the complement of the new node id and stays negative, a non-negative one by the plain
  node id, and in both cases the position decodes to the new node. Hence the re-positioning
  of \<open>SetNonDefaultPosition\<close> never changes the status, and the default pass of
  \<open>ResetPosition\<close> makes an instance excluded only by its explicit complement at a leaf
  whose right child is \<open>-1\<close>.
\<close>

theorem repositioning_keeps_exclusion:
  assumes "0 \<le> nid"
    and "IsLeaf (tree ! nat (DecodePosition pos ridx)) \<or>
         0 \<le> cleft (tree ! nat (DecodePosition pos ridx)) \<and>
         0 \<le> cright (tree ! nat (DecodePosition pos ridx))"
  shows "(SetEncodePosition pos ridx nid ridx < 0 \<longleftrightarrow> pos ridx < 0) \<and>
         SetEncodePosition pos ridx nid ridx = (if pos ridx < 0 then NOT nid else nid) \<and>
         DecodePosition (SetEncodePosition pos ridx nid) ridx = nid \<and>
         (nondefault_row tree fid pos \<lparr>index = ridx, fvalue = fv\<rparr> ridx < 0 \<longleftrightarrow> pos ridx < 0) \<and>
         (default_row tree pos ridx ridx < 0 \<longleftrightarrow>
            pos ridx < 0 \<or>
            (IsLeaf (tree ! nat (DecodePosition pos ridx)) \<and>
             cright (tree ! nat (DecodePosition pos ridx)) = -1))"
proof -
  have a: "(SetEncodePosition pos ridx nid ridx < 0 \<longleftrightarrow> pos ridx < 0) \<and>
         SetEncodePosition pos ridx nid ridx = (if pos ridx < 0 then NOT nid else nid) \<and>
         DecodePosition (SetEncodePosition pos ridx nid) ridx = nid"
    using assms(1) by (simp add: SetEncodePosition_def DecodePosition_def)
  have b: "nondefault_row tree fid pos \<lparr>index = ridx, fvalue = fv\<rparr> ridx < 0 \<longleftrightarrow> pos ridx < 0"
    using assms(2) by (auto simp add: nondefault_row_def Let_def SetEncodePosition_def)
  have c: "default_row tree pos ridx ridx < 0 \<longleftrightarrow>
            pos ridx < 0 \<or>
            (IsLeaf (tree ! nat (DecodePosition pos ridx)) \<and>
             cright (tree ! nat (DecodePosition pos ridx)) = -1)"
    using assms(2) Decode_nonneg [of pos ridx]
    by (auto simp add: default_row_def Let_def SetEncodePosition_def)
  from a b c show ?thesis by blast
qed

theorem repositioning_keeps_exclusion_witness:
  "(0::int) \<le> 2 \<and>
   (IsLeaf (tree3 ! nat (DecodePosition (\<lambda>r. -1) 7)) \<or>
      0 \<le> cleft (tree3 ! nat (DecodePosition (\<lambda>r. -1) 7)) \<and>
      0 \<le> cright (tree3 ! nat (DecodePosition (\<lambda>r. -1) 7))) \<and>
   SetEncodePosition (\<lambda>r. -1) 7 2 7 = -3 \<and>
   DecodePosition (SetEncodePosition (\<lambda>r. -1) 7 2) 7 = 2 \<and>
   nondefault_row tree3 0 (\<lambda>r. -1) \<lparr>index = 7, fvalue = 9\<rparr> 7 < 0 \<and>
   default_row tree3 (\<lambda>r. -1) 7 7 < 0"
proof -
  have d: "DecodePosition (\<lambda>r. -1) 7 = 0" by (simp add: DecodePosition_def)
  have h1: "(0::int) \<le> 2" by simp
  have h2: "IsLeaf (tree3 ! nat (DecodePosition (\<lambda>r. -1) 7)) \<or>
      0 \<le> cleft (tree3 ! nat (DecodePosition (\<lambda>r. -1) 7)) \<and>
      0 \<le> cright (tree3 ! nat (DecodePosition (\<lambda>r. -1) 7))"
    by (simp add: d tree3_def)
  show ?thesis
    using h1 h2 repositioning_keeps_exclusion [where nid=2 and tree=tree3 and pos="\<lambda>r. -1"
        and ridx=7 and fid=0 and fv=9, OF h1 h2]
    by simp
qed



subsection \<open>Closing pass\<close>

lemma Update_idem: "Update (Update e l f t d) l f t d = Update e l f t d"
  by (auto simp add: Update_def NeedReplace_def)

lemma closing_node_unfold:
  "closing_node b d_step fid nid e =
     (if min_child_weight b \<le> sum_hess (stats e) \<and>
         min_child_weight b \<le> sum_hess (SetSubstract (node_stats (snode b nid)) (stats e))
      then e\<lparr>best := Update (best e)
                 (split_loss_chg b d_step nid fid (stats e)
                    (SetSubstract (node_stats (snode b nid)) (stats e)))
                 fid
                 (last_fvalue e +
                    (if d_step = 1 then \<bar>last_fvalue e\<bar> + kRtEps b + robust_eps b
                     else - (\<bar>last_fvalue e\<bar> + kRtEps b + robust_eps b)))
                 (d_step = -1)\<rparr>
      else e)"
  unfolding closing_node_def Let_def by (rule refl)

lemma closing_node_idem:
  "closing_node b d fid nid (closing_node b d fid nid e) = closing_node b d fid nid e"
proof -
  define G where "G \<longleftrightarrow> min_child_weight b \<le> sum_hess (stats e) \<and>
         min_child_weight b \<le> sum_hess (SetSubstract (node_stats (snode b nid)) (stats e))"
  define L where "L = split_loss_chg b d nid fid (stats e)
                    (SetSubstract (node_stats (snode b nid)) (stats e))"
  define T where "T = last_fvalue e +
                    (if d = 1 then \<bar>last_fvalue e\<bar> + kRtEps b + robust_eps b
                     else - (\<bar>last_fvalue e\<bar> + kRtEps b + robust_eps b))"
  have 1: "closing_node b d fid nid e =
      (if G then e\<lparr>best := Update (best e) L fid T (d = -1)\<rparr> else e)"
    unfolding closing_node_unfold G_def L_def T_def by (rule refl)
  have 2: "closing_node b d fid nid (e\<lparr>best := X\<rparr>) =
       (if G then e\<lparr>best := Update X L fid T (d = -1)\<rparr> else e\<lparr>best := X\<rparr>)" for X
    unfolding closing_node_unfold G_def L_def T_def
    by (simp split del: if_split cong: if_cong)
  show ?thesis
  proof (cases G)
    case True
    then show ?thesis by (simp add: 1 2 Update_idem)
  next
    case False
    then show ?thesis by (simp add: 1)
  qed
qed

lemma closing_pass_notin: "nid \<notin> set q \<Longrightarrow> closing_pass b d fid q temp nid = temp nid"
  by (induction q arbitrary: temp) auto

lemma closing_pass_in:
  "nid \<in> set q \<Longrightarrow> closing_pass b d fid q temp nid = closing_node b d fid nid (temp nid)"
proof (induction q arbitrary: temp)
  case Nil
  then show ?case by simp
next
  case (Cons a q)
  show ?case
  proof (cases "nid \<in> set q")
    case True
    then have "closing_pass b d fid q (temp(a := closing_node b d fid a (temp a))) nid =
        closing_node b d fid nid ((temp(a := closing_node b d fid a (temp a))) nid)"
      by (rule Cons.IH)
    then show ?thesis by (cases "nid = a") (simp_all add: closing_node_idem)
  next
    case False
    then have "nid = a" using Cons.prems by simp
    then show ?thesis using False by (simp add: closing_pass_notin)
  qed
qed

text \<open>
  C5. In the closing pass, for each frontier node whose scanned total \<open>stats\<close> and whose
  complement \<open>snode[n].stats - stats\<close> both have \<open>sum_hess \<ge> min_child_weight\<close>, the
  candidate offered to \<open>best\<close> has the loss change of that partition, the threshold
  \<open>last_fvalue + sign(d) * (|last_fvalue| + kRtEps + eps)\<close> and \<open>default_left\<close> true exactly
  when \<open>d = -1\<close>; for the other frontier nodes nothing is offered.
\<close>

theorem closing_pass_offers_far_end_candidate:
  assumes "nid \<in> set q" and "d_step = 1 \<or> d_step = -1"
  shows "closing_pass b d_step fid q temp nid =
    (if min_child_weight b \<le> sum_hess (stats (temp nid)) \<and>
        min_child_weight b \<le>
          sum_hess (SetSubstract (node_stats (snode b nid)) (stats (temp nid)))
     then (temp nid)\<lparr>best := Update (best (temp nid))
                 (split_loss_chg b d_step nid fid (stats (temp nid))
                    (SetSubstract (node_stats (snode b nid)) (stats (temp nid))))
                 fid
                 (last_fvalue (temp nid) +
                    of_int (sgn d_step) *
                      (\<bar>last_fvalue (temp nid)\<bar> + kRtEps b + robust_eps b))
                 (d_step = -1)\<rparr>
     else temp nid)"
proof -
  have sg: "(if d_step = 1 then gap else - gap) = of_int (sgn d_step) * gap" for gap :: real
    using assms(2) by auto
  show ?thesis
    unfolding closing_pass_in [OF assms(1)] closing_node_unfold sg by (rule refl)
qed

theorem closing_pass_offers_far_end_candidate_witness:
  "(0::int) \<in> set [0] \<and> ((-1::int) = 1 \<or> (-1::int) = -1) \<and>
   best (closing_pass (example_builder 1 (1/2) (mk_stats 0 4)) (-1) 3 [0]
          (\<lambda>n. entry0\<lparr>stats := mk_stats 2 2, last_fvalue := 3\<rparr>) 0) =
     \<lparr>loss_chg = 8 / 3, SplitIndex = 3, split_value = 3 - (3 + 1 / 1000000 + 1 / 2),
      DefaultLeft = True\<rparr>"
proof -
  have h1: "(0::int) \<in> set [0]" by simp
  have h2: "(-1::int) = 1 \<or> (-1::int) = -1" by simp
  show ?thesis
    using h1 h2 closing_pass_offers_far_end_candidate [where nid=0 and q="[0]" and d_step="-1"
        and b="example_builder 1 (1/2) (mk_stats 0 4)" and fid=3
        and temp="\<lambda>n. entry0\<lparr>stats := mk_stats 2 2, last_fvalue := 3\<rparr>", OF h1 h2]
    by (simp add: example_builder_def mk_stats_def entry0_def SetSubstract_def split_loss_chg_def
          newton_gain_def Update_def NeedReplace_def SplitEntry0_def)
qed

subsection \<open>Commit phase\<close>

lemma AddChilds_eq:
  assumes "nat nid < length tree"
  shows "AddChilds tree nid =
     tree[nat nid := (tree ! nat nid)\<lparr>cleft := int (length tree), cright := int (length tree) + 1\<rparr>]
       @ [new_node nid, new_node nid]"
  using assms by (simp add: AddChilds_def Let_def list_update_append nth_append)

lemma commit_node_split:
  assumes "nat nid < length tree" and "loss_chg (node_best (snode b nid)) > kRtEps b"
  shows "commit_node b tree nid =
     tree[nat nid := SetSplit ((tree ! nat nid)\<lparr>cleft := int (length tree),
                                   cright := int (length tree) + 1\<rparr>)
                        (SplitIndex (node_best (snode b nid)))
                        (split_value (node_best (snode b nid)))
                        (DefaultLeft (node_best (snode b nid)))]
       @ [SetLeaf (new_node nid) 0 0, SetLeaf (new_node nid) 0 0]"
proof -
  let ?n = "nat nid"
  let ?L = "length tree"
  let ?X = "(tree ! ?n)\<lparr>cleft := int ?L, cright := int ?L + 1\<rparr>"
  let ?S = "SetSplit ?X (SplitIndex (node_best (snode b nid)))
                        (split_value (node_best (snode b nid)))
                        (DefaultLeft (node_best (snode b nid)))"
  have t1: "AddChilds tree nid = tree[?n := ?X] @ [new_node nid, new_node nid]"
    by (rule AddChilds_eq [OF assms(1)])
  have t1n: "(tree[?n := ?X] @ [new_node nid, new_node nid]) ! ?n = ?X"
    using assms(1) by (simp add: nth_append)
  have t2: "(tree[?n := ?X] @ [new_node nid, new_node nid])[?n := ?S] =
      tree[?n := ?S] @ [new_node nid, new_node nid]"
    using assms(1) by (simp add: list_update_append)
  have t2n: "(tree[?n := ?S] @ [new_node nid, new_node nid]) ! ?n = ?S"
    using assms(1) by (simp add: nth_append)
  have cl: "nat (cleft ?S) = ?L" by (simp add: SetSplit_def)
  have cr: "nat (cright ?S) = Suc ?L" by (simp add: SetSplit_def)
  have t2L: "(tree[?n := ?S] @ [new_node nid, new_node nid]) ! ?L = new_node nid"
    by (simp add: nth_append)
  have t3: "(tree[?n := ?S] @ [new_node nid, new_node nid])[?L := SetLeaf (new_node nid) 0 0] =
      tree[?n := ?S] @ [SetLeaf (new_node nid) 0 0, new_node nid]"
    by (simp add: list_update_append)
  have t3n: "(tree[?n := ?S] @ [SetLeaf (new_node nid) 0 0, new_node nid]) ! ?n = ?S"
    using assms(1) by (simp add: nth_append)
  have t3R: "(tree[?n := ?S] @ [SetLeaf (new_node nid) 0 0, new_node nid]) ! Suc ?L = new_node nid"
    by (simp add: nth_append)
  have t4: "(tree[?n := ?S] @ [SetLeaf (new_node nid) 0 0, new_node nid])
               [Suc ?L := SetLeaf (new_node nid) 0 0] =
      tree[?n := ?S] @ [SetLeaf (new_node nid) 0 0, SetLeaf (new_node nid) 0 0]"
    by (simp add: list_update_append)
  show ?thesis
    unfolding commit_node_def Let_def
    by (simp only: assms(2) if_True t1 t1n t2 t2n cl t2L t3 t3n cr t3R t4)
qed

lemma commit_node_leaf:
  assumes "\<not> loss_chg (node_best (snode b nid)) > kRtEps b"
  shows "commit_node b tree nid =
     tree[nat nid := SetLeaf (tree ! nat nid) (weight (snode b nid) * learning_rate b) (-1)]"
  using assms unfolding commit_node_def Let_def by simp

lemma commit_node_length:
  "nat nid < length tree \<Longrightarrow> length tree \<le> length (commit_node b tree nid)"
  by (cases "loss_chg (node_best (snode b nid)) > kRtEps b")
     (simp_all add: commit_node_split commit_node_leaf)

lemma commit_node_other:
  "nat nid < length tree \<Longrightarrow> k < length tree \<Longrightarrow> k \<noteq> nat nid \<Longrightarrow>
     commit_node b tree nid ! k = tree ! k"
  by (cases "loss_chg (node_best (snode b nid)) > kRtEps b")
     (simp_all add: commit_node_split commit_node_leaf nth_append)

lemma commit_keeps:
  "\<forall>m \<in> set q. nat m < length tree \<and> nat m \<noteq> k \<Longrightarrow> k < length tree \<Longrightarrow>
     length tree \<le> length (commit b tree q) \<and> commit b tree q ! k = tree ! k"
proof (induction q arbitrary: tree)
  case Nil
  then show ?case by (simp add: commit_def)
next
  case (Cons a q)
  have a: "nat a < length tree" "k \<noteq> nat a" using Cons.prems(1) by auto
  have len: "length tree \<le> length (commit_node b tree a)"
    by (rule commit_node_length [OF a(1)])
  have "\<forall>m \<in> set q. nat m < length (commit_node b tree a) \<and> nat m \<noteq> k"
    using Cons.prems(1) len by auto
  moreover have "k < length (commit_node b tree a)" using Cons.prems(2) len by simp
  ultimately have "length (commit_node b tree a) \<le> length (commit b (commit_node b tree a) q) \<and>
      commit b (commit_node b tree a) q ! k = commit_node b tree a ! k"
    by (rule Cons.IH)
  moreover have "commit_node b tree a ! k = tree ! k"
    by (rule commit_node_other [OF a(1) Cons.prems(2) a(2)])
  moreover have "commit b tree (a # q) = commit b (commit_node b tree a) q"
    by (simp add: commit_def)
  ultimately show ?case using len by simp
qed


lemma fresh_leaf_eq: "SetLeaf (new_node nid) 0 0 = fresh_leaf nid"
  by (simp add: SetLeaf_def new_node_def fresh_leaf_def)

text \<open>
  C9. In the commit phase of a depth, for every frontier node: if the loss change of the
  node's best split is strictly greater than \<open>kRtEps\<close>, two children are added (fresh
  leaves, appended to the tree) and the feature, threshold and default direction of the best
  split are stored on the node; otherwise the node becomes a leaf whose value is the node's
  base weight times \<open>learning_rate\<close>, and its split field is left as it was. The commit is
  a total function: the second case is an ordinary result, not an error.
\<close>

theorem commit_splits_or_makes_leaf:
  assumes "distinct q" and "\<forall>m \<in> set q. 0 \<le> m \<and> nat m < length tree" and "nid \<in> set q"
  shows "let t = commit b tree q; n = t ! nat nid; e = snode b nid in
     if loss_chg (node_best e) > kRtEps b
     then \<not> IsLeaf n \<and> sindex n = SplitIndex (node_best e) \<and>
          info n = split_value (node_best e) \<and>
          node_default_left n = DefaultLeft (node_best e) \<and>
          int (length tree) \<le> cleft n \<and> cright n = cleft n + 1 \<and>
          nat (cright n) < length t \<and>
          t ! nat (cleft n) = fresh_leaf nid \<and> t ! nat (cright n) = fresh_leaf nid
     else n = SetLeaf (tree ! nat nid) (weight e * learning_rate b) (-1) \<and> IsLeaf n \<and>
          sindex n = sindex (tree ! nat nid)"
proof -
  obtain pre post where q: "q = pre @ nid # post"
    using assms(3) by (meson split_list)
  have nid: "0 \<le> nid" "nat nid < length tree" using assms(2,3) by auto
  have inj: "m = nid" if "m \<in> set q" "nat m = nat nid" for m
  proof -
    have "0 \<le> m" using assms(2) that(1) by simp
    then show ?thesis using that(2) nid(1) by simp
  qed
  have dpre: "\<forall>m \<in> set pre. nat m < length tree \<and> nat m \<noteq> nat nid"
    using assms(1,2) q inj by auto
  have dpost: "\<forall>m \<in> set post. nat m < length tree \<and> nat m \<noteq> nat nid"
    using assms(1,2) q inj by auto
  define t1 where "t1 = commit b tree pre"
  define t2 where "t2 = commit_node b t1 nid"
  have t1: "length tree \<le> length t1" "t1 ! nat nid = tree ! nat nid"
    using commit_keeps [OF dpre nid(2), of b] by (simp_all add: t1_def)
  have n1: "nat nid < length t1" using t1(1) nid(2) by simp
  have fin: "commit b tree q = commit b t2 post"
    by (simp add: q commit_def t1_def t2_def)
  have keep: "commit b t2 post ! k = t2 ! k"
    if "k < length t2" "\<forall>m \<in> set post. nat m \<noteq> k" "length t1 \<le> length t2" for k
  proof -
    have "\<forall>m \<in> set post. nat m < length t2 \<and> nat m \<noteq> k"
      using dpost that(2,3) t1(1) by fastforce
    from commit_keeps [OF this that(1), of b] show ?thesis by simp
  qed
  have grow: "length t2 \<le> length (commit b t2 post)" if "length t1 \<le> length t2"
  proof -
    have "\<forall>m \<in> set post. nat m < length t2 \<and> nat m \<noteq> nat nid"
      using dpost that t1(1) by fastforce
    moreover have "nat nid < length t2" using n1 that by simp
    ultimately show ?thesis using commit_keeps [of post t2 "nat nid" b] by simp
  qed
  show ?thesis
  proof (cases "loss_chg (node_best (snode b nid)) > kRtEps b")
    case True
    let ?S = "SetSplit ((t1 ! nat nid)\<lparr>cleft := int (length t1), cright := int (length t1) + 1\<rparr>)
                        (SplitIndex (node_best (snode b nid)))
                        (split_value (node_best (snode b nid)))
                        (DefaultLeft (node_best (snode b nid)))"
    have t2: "t2 = t1[nat nid := ?S] @ [fresh_leaf nid, fresh_leaf nid]"
      unfolding t2_def commit_node_split [OF n1 True] fresh_leaf_eq by (rule refl)
    have len: "length t2 = length t1 + 2" by (simp add: t2)
    have le: "length t1 \<le> length t2" by (simp add: len)
    have post_lt: "\<forall>m \<in> set post. nat m < length t1" using dpost t1(1) by fastforce
    have kn: "commit b t2 post ! nat nid = ?S"
    proof -
      have "commit b t2 post ! nat nid = t2 ! nat nid"
        using keep [of "nat nid"] n1 le dpost by auto
      then show ?thesis using n1 by (simp add: t2 nth_append)
    qed
    have kl: "commit b t2 post ! length t1 = fresh_leaf nid"
    proof -
      have "commit b t2 post ! length t1 = t2 ! length t1"
        using keep [of "length t1"] post_lt len le by fastforce
      then show ?thesis by (simp add: t2 nth_append)
    qed
    have kr: "commit b t2 post ! Suc (length t1) = fresh_leaf nid"
    proof -
      have "commit b t2 post ! Suc (length t1) = t2 ! Suc (length t1)"
        using keep [of "Suc (length t1)"] post_lt len le by fastforce
      then show ?thesis by (simp add: t2 nth_append)
    qed
    have fl: "Suc (length t1) < length (commit b t2 post)"
      using grow [OF le] len by simp
    have S: "\<not> IsLeaf ?S" "sindex ?S = SplitIndex (node_best (snode b nid))"
      "info ?S = split_value (node_best (snode b nid))"
      "node_default_left ?S = DefaultLeft (node_best (snode b nid))"
      "cleft ?S = int (length t1)" "cright ?S = int (length t1) + 1"
      by (simp_all add: SetSplit_def IsLeaf_def)
    have nl: "nat (int (length t1) + 1) = Suc (length t1)"
      by simp
    show ?thesis
      unfolding Let_def fin kn
      using True t1(1) fl kl kr by (simp add: S nl)
  next
    case False
    have t2: "t2 = t1[nat nid := SetLeaf (tree ! nat nid)
                       (weight (snode b nid) * learning_rate b) (-1)]"
      unfolding t2_def commit_node_leaf [OF False] t1(2) by (rule refl)
    have le: "length t1 \<le> length t2" by (simp add: t2)
    have "commit b t2 post ! nat nid = t2 ! nat nid"
      using keep [of "nat nid"] n1 le dpost by (auto simp add: t2)
    then have kn: "commit b t2 post ! nat nid =
        SetLeaf (tree ! nat nid) (weight (snode b nid) * learning_rate b) (-1)"
      using n1 by (simp add: t2)
    show ?thesis
      unfolding Let_def fin kn using False by (simp add: SetLeaf_def IsLeaf_def)
  qed
qed

theorem commit_splits_or_makes_leaf_witness:
  "distinct [0, 1 :: int] \<and> (0::int) \<in> set [0, 1] \<and> (1::int) \<in> set [0, 1] \<and>
   \<not> IsLeaf (commit commit_builder tree1 [0, 1] ! 0) \<and>
   sindex (commit commit_builder tree1 [0, 1] ! 0) = 4 \<and>
   info (commit commit_builder tree1 [0, 1] ! 0) = 7 \<and>
   node_default_left (commit commit_builder tree1 [0, 1] ! 0) \<and>
   commit commit_builder tree1 [0, 1] ! 1 =
     \<lparr>parent = -1, cleft = -1, cright = -1, sindex = 0, node_default_left = False,
      info = 3 / 2\<rparr>"
proof -
  have h1: "distinct [0, 1 :: int]" by simp
  have h2: "\<forall>m \<in> set [0, 1 :: int]. 0 \<le> m \<and> nat m < length tree1" by (simp add: tree1_def)
  have h3: "(0::int) \<in> set [0, 1]" by simp
  have h4: "(1::int) \<in> set [0, 1]" by simp
  have b0: "node_best (snode commit_builder 0) =
      \<lparr>loss_chg = 2, SplitIndex = 4, split_value = 7, DefaultLeft = True\<rparr>"
    "node_best (snode commit_builder 1) = SplitEntry0" "kRtEps commit_builder = 1 / 1000000"
    "weight (snode commit_builder 1) = 3" "learning_rate commit_builder = 1 / 2"
    by (simp_all add: commit_builder_def example_builder_def)
  have a: "\<not> IsLeaf (commit commit_builder tree1 [0, 1] ! 0) \<and>
   sindex (commit commit_builder tree1 [0, 1] ! 0) = 4 \<and>
   info (commit commit_builder tree1 [0, 1] ! 0) = 7 \<and>
   node_default_left (commit commit_builder tree1 [0, 1] ! 0)"
    using commit_splits_or_makes_leaf [where b=commit_builder, OF h1 h2 h3]
    by (simp add: b0 Let_def)
  have c: "commit commit_builder tree1 [0, 1] ! 1 =
     \<lparr>parent = -1, cleft = -1, cright = -1, sindex = 0, node_default_left = False,
      info = 3 / 2\<rparr>"
    using commit_splits_or_makes_leaf [where b=commit_builder, OF h1 h2 h4]
    by (simp add: b0 Let_def SplitEntry0_def SetLeaf_def tree1_def)
  from h1 h3 h4 a c show ?thesis by blast
qed

subsection \<open>Midpoint pass\<close>

lemma midpoint_entry_updated_mono:
  "updated_nid s \<subseteq> updated_nid (midpoint_entry b fid s it)"
  unfolding midpoint_entry_def Let_def by (auto split: option.splits)

lemma midpoint_entry_cases:
  "mtemp (midpoint_entry b fid s it) nid = mtemp s nid \<or>
   (nid \<notin> updated_nid s \<and> nid \<in> updated_nid (midpoint_entry b fid s it) \<and>
    (\<exists>v. mtemp (midpoint_entry b fid s it) nid =
           (mtemp s nid)\<lparr>best := update_split_value (best (mtemp s nid)) v\<rparr>))"
  unfolding midpoint_entry_def Let_def by (auto split: option.splits)

lemma midpoint_pass_snoc:
  "midpoint_pass b fid s (its @ [it]) = midpoint_entry b fid (midpoint_pass b fid s its) it"
  by (simp add: midpoint_pass_def)

lemma midpoint_pass_updated_mono:
  "updated_nid s \<subseteq> updated_nid (midpoint_pass b fid s its)"
proof (induction its rule: rev_induct)
  case Nil
  then show ?case by (simp add: midpoint_pass_def)
next
  case (snoc it its)
  then show ?case
    using midpoint_entry_updated_mono [of "midpoint_pass b fid s its" b fid it]
    by (auto simp add: midpoint_pass_snoc)
qed

lemma midpoint_pass_frozen:
  "nid \<in> updated_nid s \<Longrightarrow> mtemp (midpoint_pass b fid s its) nid = mtemp s nid"
proof (induction its rule: rev_induct)
  case Nil
  then show ?case by (simp add: midpoint_pass_def)
next
  case (snoc it its)
  have "nid \<in> updated_nid (midpoint_pass b fid s its)"
    using snoc.prems midpoint_pass_updated_mono by blast
  then have "mtemp (midpoint_entry b fid (midpoint_pass b fid s its) it) nid =
      mtemp (midpoint_pass b fid s its) nid"
    using midpoint_entry_cases [of b fid "midpoint_pass b fid s its" it nid] by blast
  then show ?case using snoc by (simp add: midpoint_pass_snoc)
qed

lemma midpoint_pass_frame:
  "\<exists>v. mtemp (midpoint_pass b fid s its) nid =
         (mtemp s nid)\<lparr>best := (best (mtemp s nid))\<lparr>split_value := v\<rparr>\<rparr>"
proof (induction its rule: rev_induct)
  case Nil
  have "mtemp s nid = (mtemp s nid)\<lparr>best := (best (mtemp s nid))\<lparr>split_value := split_value (best (mtemp s nid))\<rparr>\<rparr>"
    by simp
  then show ?case unfolding midpoint_pass_def foldl.simps by (rule exI)
next
  case (snoc it its)
  then obtain v where v: "mtemp (midpoint_pass b fid s its) nid =
         (mtemp s nid)\<lparr>best := (best (mtemp s nid))\<lparr>split_value := v\<rparr>\<rparr>" by blast
  from midpoint_entry_cases [of b fid "midpoint_pass b fid s its" it nid]
  show ?case
  proof
    assume "mtemp (midpoint_entry b fid (midpoint_pass b fid s its) it) nid =
      mtemp (midpoint_pass b fid s its) nid"
    then show ?thesis using v by (auto simp add: midpoint_pass_snoc)
  next
    assume "nid \<notin> updated_nid (midpoint_pass b fid s its) \<and>
      nid \<in> updated_nid (midpoint_entry b fid (midpoint_pass b fid s its) it) \<and>
      (\<exists>v. mtemp (midpoint_entry b fid (midpoint_pass b fid s its) it) nid =
           (mtemp (midpoint_pass b fid s its) nid)
             \<lparr>best := update_split_value (best (mtemp (midpoint_pass b fid s its) nid)) v\<rparr>)"
    then obtain w where "mtemp (midpoint_entry b fid (midpoint_pass b fid s its) it) nid =
           (mtemp (midpoint_pass b fid s its) nid)
             \<lparr>best := update_split_value (best (mtemp (midpoint_pass b fid s its) nid)) w\<rparr>"
      by blast
    then have "mtemp (midpoint_pass b fid s (its @ [it])) nid =
        (mtemp s nid)\<lparr>best := (best (mtemp s nid))\<lparr>split_value := w\<rparr>\<rparr>"
      by (simp add: midpoint_pass_snoc v update_split_value_def)
    then show ?thesis by (rule exI)
  qed
qed

lemma midfix_prefix:
  "midfix prev thr xs = Some m \<Longrightarrow> midfix prev thr (xs @ ys) = Some m"
  by (induction xs arbitrary: prev) (auto split: option.splits if_splits)

lemma midfix_all_below:
  "\<forall>c \<in> set xs. c < thr \<Longrightarrow> midfix prev thr xs = None"
  by (induction xs arbitrary: prev) (auto split: option.splits)

lemma midfix_at_end:
  "\<forall>c \<in> set xs. c < thr \<Longrightarrow> xs \<noteq> [] \<Longrightarrow>
     midfix prev thr (xs @ [thr]) = Some ((thr + last xs) * 0.5)"
proof (induction xs arbitrary: prev)
  case Nil
  then show ?case by simp
next
  case (Cons a xs)
  show ?case
  proof (cases "xs = []")
    case True
    then show ?thesis using Cons.prems by (auto split: option.splits)
  next
    case False
    have "midfix (Some a) thr (xs @ [thr]) = Some ((thr + last xs) * 0.5)"
      using Cons.IH [of "Some a"] Cons.prems False by simp
    then show ?thesis using Cons.prems False by (auto split: option.splits)
  qed
qed

lemma midpoint_entry_unfold:
  "midpoint_entry b fid s it =
     (if position b (index (snd it)) < 0 then s
      else if SplitIndex (best (mtemp s (position b (index (snd it))))) \<noteq> fid \<or>
              position b (index (snd it)) \<in> updated_nid s then s
      else (case last_fvalue_map s (position b (index (snd it))) of
              None \<Rightarrow> s\<lparr>last_fvalue_map :=
                          (last_fvalue_map s)(position b (index (snd it)) \<mapsto> fvalue (snd it))\<rparr>
            | Some lv \<Rightarrow>
                if lv < split_value (best (mtemp s (position b (index (snd it))))) \<and>
                   split_value (best (mtemp s (position b (index (snd it))))) \<le> fvalue (snd it)
                then s\<lparr>mtemp := (mtemp s)(position b (index (snd it)) :=
                          (mtemp s (position b (index (snd it))))
                            \<lparr>best := update_split_value
                               (best (mtemp s (position b (index (snd it)))))
                               ((fvalue (snd it) + lv) * 0.5)\<rparr>),
                       updated_nid := insert (position b (index (snd it))) (updated_nid s),
                       last_fvalue_map :=
                          (last_fvalue_map s)(position b (index (snd it)) \<mapsto> fvalue (snd it))\<rparr>
                else s\<lparr>last_fvalue_map :=
                          (last_fvalue_map s)(position b (index (snd it)) \<mapsto> fvalue (snd it))\<rparr>))"
  unfolding midpoint_entry_def Let_def by (simp split: option.splits)

lemma midpoint_entry_not_at:
  assumes "\<not> at_node b nid (snd it)"
  shows "mtemp (midpoint_entry b fid s it) nid = mtemp s nid"
    and "last_fvalue_map (midpoint_entry b fid s it) nid = last_fvalue_map s nid"
    and "nid \<in> updated_nid (midpoint_entry b fid s it) \<longleftrightarrow> nid \<in> updated_nid s"
proof -
  have ne: "position b (index (snd it)) < 0 \<or> position b (index (snd it)) \<noteq> nid"
    using assms by (auto simp add: at_node_def)
  show "mtemp (midpoint_entry b fid s it) nid = mtemp s nid"
    using ne by (auto simp add: midpoint_entry_unfold split: option.splits)
  show "last_fvalue_map (midpoint_entry b fid s it) nid = last_fvalue_map s nid"
    using ne by (auto simp add: midpoint_entry_unfold split: option.splits)
  show "nid \<in> updated_nid (midpoint_entry b fid s it) \<longleftrightarrow> nid \<in> updated_nid s"
    using ne by (auto simp add: midpoint_entry_unfold split: option.splits)
qed

lemma midpoint_entry_skip:
  assumes "SplitIndex (best (mtemp s nid)) \<noteq> fid"
  shows "mtemp (midpoint_entry b fid s it) nid = mtemp s nid"
  using assms by (auto simp add: midpoint_entry_unfold split: option.splits)

lemma midpoint_entry_at_first:
  assumes "at_node b nid (snd it)" and "nid \<notin> updated_nid s"
    and "SplitIndex (best (mtemp s nid)) = fid" and "last_fvalue_map s nid = None"
  shows "mtemp (midpoint_entry b fid s it) nid = mtemp s nid"
    and "last_fvalue_map (midpoint_entry b fid s it) nid = Some (fvalue (snd it))"
    and "nid \<notin> updated_nid (midpoint_entry b fid s it)"
proof -
  have p: "position b (index (snd it)) = nid" "\<not> nid < 0"
    using assms(1) by (simp_all add: at_node_def)
  show "mtemp (midpoint_entry b fid s it) nid = mtemp s nid"
    and "last_fvalue_map (midpoint_entry b fid s it) nid = Some (fvalue (snd it))"
    and "nid \<notin> updated_nid (midpoint_entry b fid s it)"
    using assms(2-4) by (simp_all add: midpoint_entry_unfold p)
qed

lemma midpoint_entry_at_miss:
  assumes "at_node b nid (snd it)" and "nid \<notin> updated_nid s"
    and "SplitIndex (best (mtemp s nid)) = fid" and "last_fvalue_map s nid = Some a"
    and "\<not> (a < split_value (best (mtemp s nid)) \<and>
            split_value (best (mtemp s nid)) \<le> fvalue (snd it))"
  shows "mtemp (midpoint_entry b fid s it) nid = mtemp s nid"
    and "last_fvalue_map (midpoint_entry b fid s it) nid = Some (fvalue (snd it))"
    and "nid \<notin> updated_nid (midpoint_entry b fid s it)"
proof -
  have p: "position b (index (snd it)) = nid" "\<not> nid < 0"
    using assms(1) by (simp_all add: at_node_def)
  show "mtemp (midpoint_entry b fid s it) nid = mtemp s nid"
    and "last_fvalue_map (midpoint_entry b fid s it) nid = Some (fvalue (snd it))"
    and "nid \<notin> updated_nid (midpoint_entry b fid s it)"
    using assms(2-5) by (auto simp add: midpoint_entry_unfold p)
qed

lemma midpoint_entry_at_hit:
  assumes "at_node b nid (snd it)" and "nid \<notin> updated_nid s"
    and "SplitIndex (best (mtemp s nid)) = fid" and "last_fvalue_map s nid = Some a"
    and "a < split_value (best (mtemp s nid))"
    and "split_value (best (mtemp s nid)) \<le> fvalue (snd it)"
  shows "best (mtemp (midpoint_entry b fid s it) nid) =
           (best (mtemp s nid))\<lparr>split_value := (fvalue (snd it) + a) * 0.5\<rparr>"
    and "nid \<in> updated_nid (midpoint_entry b fid s it)"
proof -
  have p: "position b (index (snd it)) = nid" "\<not> nid < 0"
    using assms(1) by (simp_all add: at_node_def)
  show "best (mtemp (midpoint_entry b fid s it) nid) =
           (best (mtemp s nid))\<lparr>split_value := (fvalue (snd it) + a) * 0.5\<rparr>"
    and "nid \<in> updated_nid (midpoint_entry b fid s it)"
    using assms(2-6) by (simp_all add: midpoint_entry_unfold p update_split_value_def)
qed

lemma midpoint_pass_Cons:
  "midpoint_pass b fid s (it # its) = midpoint_pass b fid (midpoint_entry b fid s it) its"
  by (simp add: midpoint_pass_def)

lemma midpoint_pass_skip:
  "SplitIndex (best (mtemp s nid)) \<noteq> fid \<Longrightarrow>
     mtemp (midpoint_pass b fid s its) nid = mtemp s nid"
proof (induction its arbitrary: s)
  case Nil
  then show ?case by (simp add: midpoint_pass_def)
next
  case (Cons it its)
  have 1: "mtemp (midpoint_entry b fid s it) nid = mtemp s nid"
    by (rule midpoint_entry_skip [OF Cons.prems])
  then have "SplitIndex (best (mtemp (midpoint_entry b fid s it) nid)) \<noteq> fid"
    using Cons.prems by simp
  then have "mtemp (midpoint_pass b fid (midpoint_entry b fid s it) its) nid =
      mtemp (midpoint_entry b fid s it) nid"
    by (rule Cons.IH)
  then show ?case using 1 by (simp add: midpoint_pass_Cons)
qed

lemma midpoint_pass_node:
  assumes "nid \<notin> updated_nid s" and "SplitIndex (best (mtemp s nid)) = fid"
  shows "best (mtemp (midpoint_pass b fid s its) nid) =
     moved_best (best (mtemp s nid))
       (midfix (last_fvalue_map s nid) (split_value (best (mtemp s nid)))
          (map (\<lambda>it. fvalue (snd it)) (filter (\<lambda>it. at_node b nid (snd it)) its)))"
  using assms
proof (induction its arbitrary: s)
  case Nil
  then show ?case by (simp add: midpoint_pass_def moved_best_def)
next
  case (Cons it its)
  let ?s = "midpoint_entry b fid s it"
  let ?vs = "map (\<lambda>it. fvalue (snd it)) (filter (\<lambda>it. at_node b nid (snd it)) its)"
  have IH: "best (mtemp (midpoint_pass b fid ?s its) nid) =
       moved_best (best (mtemp ?s nid))
         (midfix (last_fvalue_map ?s nid) (split_value (best (mtemp ?s nid))) ?vs)"
    if "nid \<notin> updated_nid ?s" "mtemp ?s nid = mtemp s nid"
    using that Cons.prems(2) by (intro Cons.IH) simp_all
  show ?case
  proof (cases "at_node b nid (snd it)")
    case False
    note n = midpoint_entry_not_at [OF False, of fid s]
    have "nid \<notin> updated_nid ?s" using n(3) Cons.prems(1) by simp
    from IH [OF this n(1)] show ?thesis
      using False by (simp add: midpoint_pass_Cons n(1,2))
  next
    case True
    show ?thesis
    proof (cases "last_fvalue_map s nid")
      case None
      note n = midpoint_entry_at_first [OF True Cons.prems None]
      from IH [OF n(3) n(1)] show ?thesis
        using True None by (simp add: midpoint_pass_Cons n(1,2))
    next
      case (Some a)
      show ?thesis
      proof (cases "a < split_value (best (mtemp s nid)) \<and>
            split_value (best (mtemp s nid)) \<le> fvalue (snd it)")
        case False
        note n = midpoint_entry_at_miss [OF True Cons.prems Some False]
        have mf: "midfix (Some a) (split_value (best (mtemp s nid))) (fvalue (snd it) # ?vs) =
            midfix (Some (fvalue (snd it))) (split_value (best (mtemp s nid))) ?vs"
          using False by auto
        from IH [OF n(3) n(1)] show ?thesis
          using True Some by (simp add: midpoint_pass_Cons n(1,2) mf del: midfix.simps)
      next
        case hit: True
        note n = midpoint_entry_at_hit [OF True Cons.prems Some conjunct1 [OF hit] conjunct2 [OF hit]]
        have "mtemp (midpoint_pass b fid ?s its) nid = mtemp ?s nid"
          by (rule midpoint_pass_frozen [OF n(2)])
        moreover have "midfix (Some a) (split_value (best (mtemp s nid))) (fvalue (snd it) # ?vs) =
            Some ((fvalue (snd it) + a) * 0.5)"
          using hit by simp
        ultimately show ?thesis
          using True Some
          by (simp add: midpoint_pass_Cons n(1) moved_best_def del: midfix.simps)
      qed
    qed
  qed
qed

lemma midpoint_pass_state:
  assumes "SplitIndex (best (mtemp s nid)) = fid"
    and "nid \<notin> updated_nid (midpoint_pass b fid s pre)"
  shows "mtemp (midpoint_pass b fid s pre) nid = mtemp s nid \<and>
         last_fvalue_map (midpoint_pass b fid s pre) nid =
           (if filter (\<lambda>it. at_node b nid (snd it)) pre = [] then last_fvalue_map s nid
            else Some (fvalue (snd (last (filter (\<lambda>it. at_node b nid (snd it)) pre)))))"
  using assms(2)
proof (induction pre rule: rev_induct)
  case Nil
  then show ?case by (simp add: midpoint_pass_def)
next
  case (snoc it pre)
  let ?s = "midpoint_pass b fid s pre"
  have nu: "nid \<notin> updated_nid ?s"
    using snoc.prems midpoint_entry_updated_mono [of ?s b fid it]
    by (auto simp add: midpoint_pass_snoc)
  note ih = snoc.IH [OF nu]
  have si: "SplitIndex (best (mtemp ?s nid)) = fid" using ih assms(1) by simp
  show ?case
  proof (cases "at_node b nid (snd it)")
    case False
    note n = midpoint_entry_not_at [OF False, of fid ?s]
    show ?thesis using ih False by (simp add: midpoint_pass_snoc n(1,2))
  next
    case True
    show ?thesis
    proof (cases "last_fvalue_map ?s nid")
      case None
      note n = midpoint_entry_at_first [OF True nu si None]
      show ?thesis using ih True by (simp add: midpoint_pass_snoc n(1,2))
    next
      case (Some a)
      have miss: "\<not> (a < split_value (best (mtemp ?s nid)) \<and>
            split_value (best (mtemp ?s nid)) \<le> fvalue (snd it))"
      proof
        assume h: "a < split_value (best (mtemp ?s nid)) \<and>
            split_value (best (mtemp ?s nid)) \<le> fvalue (snd it)"
        have "nid \<in> updated_nid (midpoint_entry b fid ?s it)"
          by (rule midpoint_entry_at_hit(2) [OF True nu si Some conjunct1 [OF h] conjunct2 [OF h]])
        then show False using snoc.prems by (simp add: midpoint_pass_snoc)
      qed
      note n = midpoint_entry_at_miss [OF True nu si Some miss]
      show ?thesis using ih True by (simp add: midpoint_pass_snoc n(1,2))
    qed
  qed
qed

lemma midpoint_pass_hit:
  assumes "at_node b nid (snd it)" and "SplitIndex (best (mtemp s nid)) = fid"
    and "nid \<notin> updated_nid (midpoint_pass b fid s pre)"
    and "last_fvalue_map (midpoint_pass b fid s pre) nid = Some lv"
    and "lv < split_value (best (mtemp s nid))"
    and "split_value (best (mtemp s nid)) \<le> fvalue (snd it)"
  shows "mtemp (midpoint_pass b fid s pre) nid = mtemp s nid"
    and "mtemp (midpoint_pass b fid s (pre @ it # post)) nid =
           (mtemp s nid)\<lparr>best := (best (mtemp s nid))\<lparr>split_value := (fvalue (snd it) + lv) / 2\<rparr>\<rparr>"
proof -
  let ?s = "midpoint_pass b fid s pre"
  note st = midpoint_pass_state [OF assms(2) assms(3)]
  show m: "mtemp ?s nid = mtemp s nid" using st by simp
  have si: "SplitIndex (best (mtemp ?s nid)) = fid" using m assms(2) by simp
  have lo: "lv < split_value (best (mtemp ?s nid))" using m assms(5) by simp
  have hi: "split_value (best (mtemp ?s nid)) \<le> fvalue (snd it)" using m assms(6) by simp
  note h = midpoint_entry_at_hit [OF assms(1) assms(3) si assms(4) lo hi]
  obtain v where v: "mtemp (midpoint_entry b fid ?s it) nid =
      (mtemp ?s nid)\<lparr>best := (best (mtemp ?s nid))\<lparr>split_value := v\<rparr>\<rparr>"
    using midpoint_pass_frame [of b fid ?s "[it]" nid] by (auto simp add: midpoint_pass_def)
  have "mtemp (midpoint_entry b fid ?s it) nid =
      (mtemp ?s nid)\<lparr>best := best (mtemp (midpoint_entry b fid ?s it) nid)\<rparr>"
    using v by simp
  then have e: "mtemp (midpoint_entry b fid ?s it) nid =
      (mtemp s nid)\<lparr>best := (best (mtemp s nid))\<lparr>split_value := (fvalue (snd it) + lv) / 2\<rparr>\<rparr>"
    unfolding h(1) m by simp
  have "midpoint_pass b fid s (pre @ it # post) =
      midpoint_pass b fid (midpoint_entry b fid ?s it) post"
    by (simp add: midpoint_pass_def)
  then show "mtemp (midpoint_pass b fid s (pre @ it # post)) nid =
           (mtemp s nid)\<lparr>best := (best (mtemp s nid))\<lparr>split_value := (fvalue (snd it) + lv) / 2\<rparr>\<rparr>"
    using midpoint_pass_frozen [OF h(2), of b fid post] e by simp
qed

lemma midpoint_pass_result:
  "mtemp (midpoint_pass b fid \<lparr>mtemp = t, last_fvalue_map = Map.empty, updated_nid = {}\<rparr> its) nid =
     (t nid)\<lparr>best :=
        (if SplitIndex (best (t nid)) = fid
         then moved_best (best (t nid))
                (midfix None (split_value (best (t nid)))
                   (map (\<lambda>it. fvalue (snd it)) (filter (\<lambda>it. at_node b nid (snd it)) its)))
         else best (t nid))\<rparr>"
proof (cases "SplitIndex (best (t nid)) = fid")
  case False
  then show ?thesis
    using midpoint_pass_skip [of "\<lparr>mtemp = t, last_fvalue_map = Map.empty, updated_nid = {}\<rparr>" nid fid b its]
    by simp
next
  case True
  let ?s = "\<lparr>mtemp = t, last_fvalue_map = Map.empty, updated_nid = {}\<rparr>"
  obtain v where v: "mtemp (midpoint_pass b fid ?s its) nid =
      (mtemp ?s nid)\<lparr>best := (best (mtemp ?s nid))\<lparr>split_value := v\<rparr>\<rparr>"
    using midpoint_pass_frame [of b fid ?s its nid] by blast
  have "best (mtemp (midpoint_pass b fid ?s its) nid) =
     moved_best (best (mtemp ?s nid))
       (midfix (last_fvalue_map ?s nid) (split_value (best (mtemp ?s nid)))
          (map (\<lambda>it. fvalue (snd it)) (filter (\<lambda>it. at_node b nid (snd it)) its)))"
    by (rule midpoint_pass_node) (simp_all add: True)
  then show ?thesis using v True by simp
qed

text \<open>
  C6. The midpoint pass of a column of feature \<open>f\<close> starts with no recorded value and no
  corrected node. When it meets, after the entries \<open>pre\<close>, an entry at a node \<open>n\<close> whose
  best split is at that moment on \<open>f\<close>, a previous value \<open>lv\<close> is recorded for \<open>n\<close>, the
  threshold stored at that moment lies in \<open>(lv, current value]\<close> and \<open>n\<close> is not in
  \<open>updated_nid\<close>, then: \<open>lv\<close> is the value
  of the last entry of \<open>n\<close> in \<open>pre\<close>; the entry of \<open>n\<close> has not been changed so far; the
  threshold becomes the average of \<open>lv\<close> and the current value, and \<open>loss_chg\<close>, the feature
  and \<open>default_left\<close> stay; and whatever the entries \<open>post\<close> that follow, this is the entry
  of \<open>n\<close> at the end of the pass: the node is not corrected a second time. The result of the
  whole pass at every node is the entry before the pass with, when the best split is on \<open>f\<close>,
  the threshold moved to the midpoint of the first two consecutive values of the node that
  enclose it (\<open>midfix\<close>), and the same entry otherwise. \<open>EnumerateSplit\<close> ends with this pass,
  run on the result of the closing pass over the entries in scan order.
\<close>

theorem midpoint_pass_corrects_once:
  "let s0 = \<lparr>mtemp = t, last_fvalue_map = Map.empty, updated_nid = {}\<rparr>;
       ents = (\<lambda>xs. filter (\<lambda>it. at_node b nid (snd it)) xs)
   in (\<forall>pre it post lv.
         (let sp = midpoint_pass b fid s0 pre; be = best (mtemp sp nid)
          in at_node b nid (snd it) \<and> SplitIndex be = fid \<and>
             nid \<notin> updated_nid sp \<and> last_fvalue_map sp nid = Some lv \<and>
             lv < split_value be \<and> split_value be \<le> fvalue (snd it) \<longrightarrow>
               ents pre \<noteq> [] \<and> lv = fvalue (snd (last (ents pre))) \<and>
               mtemp sp nid = t nid \<and>
               mtemp (midpoint_pass b fid s0 (pre @ [it])) nid =
                 (t nid)\<lparr>best := (best (t nid))\<lparr>split_value := (fvalue (snd it) + lv) / 2\<rparr>\<rparr> \<and>
               mtemp (midpoint_pass b fid s0 (pre @ it # post)) nid =
                 (t nid)\<lparr>best := (best (t nid))\<lparr>split_value := (fvalue (snd it) + lv) / 2\<rparr>\<rparr>)) \<and>
      (\<forall>its. mtemp (midpoint_pass b fid s0 its) nid =
         (t nid)\<lparr>best :=
            (if SplitIndex (best (t nid)) = fid
             then moved_best (best (t nid))
                    (midfix None (split_value (best (t nid)))
                       (map (\<lambda>it. fvalue (snd it)) (ents its)))
             else best (t nid))\<rparr>) \<and>
      EnumerateSplit b col d_step fid gpair temp =
        mtemp (midpoint_pass b fid
          \<lparr>mtemp = closing_pass b d_step fid (qexpand b)
                     (main_sweep b d_step fid gpair (clear_temp (qexpand b) temp) (scan_order col)),
           last_fvalue_map = Map.empty, updated_nid = {}\<rparr>
          (scan_order col))"
proof -
  let ?s0 = "\<lparr>mtemp = t, last_fvalue_map = Map.empty, updated_nid = {}\<rparr>"
  let ?ents = "\<lambda>xs. filter (\<lambda>it. at_node b nid (snd it)) xs"
  have 1: "?ents pre \<noteq> [] \<and> lv = fvalue (snd (last (?ents pre))) \<and>
           mtemp (midpoint_pass b fid ?s0 pre) nid = t nid \<and>
           mtemp (midpoint_pass b fid ?s0 (pre @ [it])) nid =
             (t nid)\<lparr>best := (best (t nid))\<lparr>split_value := (fvalue (snd it) + lv) / 2\<rparr>\<rparr> \<and>
           mtemp (midpoint_pass b fid ?s0 (pre @ it # post)) nid =
             (t nid)\<lparr>best := (best (t nid))\<lparr>split_value := (fvalue (snd it) + lv) / 2\<rparr>\<rparr>"
    if h: "at_node b nid (snd it) \<and>
         SplitIndex (best (mtemp (midpoint_pass b fid ?s0 pre) nid)) = fid \<and>
         nid \<notin> updated_nid (midpoint_pass b fid ?s0 pre) \<and>
         last_fvalue_map (midpoint_pass b fid ?s0 pre) nid = Some lv \<and>
         lv < split_value (best (mtemp (midpoint_pass b fid ?s0 pre) nid)) \<and>
         split_value (best (mtemp (midpoint_pass b fid ?s0 pre) nid)) \<le> fvalue (snd it)"
    for pre it post lv
  proof -
    obtain v where v: "mtemp (midpoint_pass b fid ?s0 pre) nid =
        (mtemp ?s0 nid)\<lparr>best := (best (mtemp ?s0 nid))\<lparr>split_value := v\<rparr>\<rparr>"
      using midpoint_pass_frame [of b fid ?s0 pre nid] by blast
    have "SplitIndex (best (mtemp (midpoint_pass b fid ?s0 pre) nid)) =
        SplitIndex (best (mtemp ?s0 nid))"
      unfolding v by simp
    then have si: "SplitIndex (best (mtemp ?s0 nid)) = fid" using h by simp
    have nu: "nid \<notin> updated_nid (midpoint_pass b fid ?s0 pre)" using h by simp
    have lm: "last_fvalue_map (midpoint_pass b fid ?s0 pre) nid = Some lv" using h by simp
    note st = midpoint_pass_state [OF si nu]
    have same: "mtemp (midpoint_pass b fid ?s0 pre) nid = mtemp ?s0 nid" using st by simp
    have lo: "lv < split_value (best (mtemp ?s0 nid))" using h unfolding same by simp
    have hi: "split_value (best (mtemp ?s0 nid)) \<le> fvalue (snd it)" using h unfolding same by simp
    have an: "at_node b nid (snd it)" using h by simp
    have a: "?ents pre \<noteq> []" using st lm by (auto split: if_splits)
    have c: "lv = fvalue (snd (last (?ents pre)))" using st lm a by simp
    note hit = midpoint_pass_hit [OF an si nu lm lo hi]
    have d: "mtemp (midpoint_pass b fid ?s0 pre) nid = t nid" using hit(1) by simp
    have e: "mtemp (midpoint_pass b fid ?s0 (pre @ it # post')) nid =
             (t nid)\<lparr>best := (best (t nid))\<lparr>split_value := (fvalue (snd it) + lv) / 2\<rparr>\<rparr>"
      for post'
      using hit(2) [of post'] by simp
    from a c d e [of "[]"] e [of post] show ?thesis by simp
  qed
  have 2: "mtemp (midpoint_pass b fid ?s0 its) nid =
         (t nid)\<lparr>best :=
            (if SplitIndex (best (t nid)) = fid
             then moved_best (best (t nid))
                    (midfix None (split_value (best (t nid))) (map (\<lambda>it. fvalue (snd it)) (?ents its)))
             else best (t nid))\<rparr>" for its
    by (rule midpoint_pass_result)
  have 3: "EnumerateSplit b col d_step fid gpair temp =
        mtemp (midpoint_pass b fid
          \<lparr>mtemp = closing_pass b d_step fid (qexpand b)
                     (main_sweep b d_step fid gpair (clear_temp (qexpand b) temp) (scan_order col)),
           last_fvalue_map = Map.empty, updated_nid = {}\<rparr>
          (scan_order col))"
    unfolding EnumerateSplit_def Let_def by (rule refl)
  from 1 2 3 show ?thesis unfolding Let_def by blast
qed

theorem midpoint_pass_corrects_once_witness:
  "at_node (example_builder 1 0 (mk_stats 0 4)) 0 (snd (1::nat, mk_entry 5 6)) \<and>
   0 \<notin> updated_nid (midpoint_pass (example_builder 1 0 (mk_stats 0 4)) 3
          \<lparr>mtemp = mid_temp1, last_fvalue_map = Map.empty, updated_nid = {}\<rparr>
          [(0, mk_entry 4 1)]) \<and>
   last_fvalue_map (midpoint_pass (example_builder 1 0 (mk_stats 0 4)) 3
          \<lparr>mtemp = mid_temp1, last_fvalue_map = Map.empty, updated_nid = {}\<rparr>
          [(0, mk_entry 4 1)]) 0 = Some 1 \<and>
   best (mtemp (midpoint_pass (example_builder 1 0 (mk_stats 0 4)) 3
          \<lparr>mtemp = mid_temp1, last_fvalue_map = Map.empty, updated_nid = {}\<rparr>
          [(0, mk_entry 4 1)]) 0) =
     \<lparr>loss_chg = 2, SplitIndex = 3, split_value = 4, DefaultLeft = True\<rparr> \<and>
   fvalue (snd (1::nat, mk_entry 5 6)) = 6 \<and>
   best (mtemp (midpoint_pass (example_builder 1 0 (mk_stats 0 4)) 3
          \<lparr>mtemp = mid_temp1, last_fvalue_map = Map.empty, updated_nid = {}\<rparr>
          [(0, mk_entry 4 1), (1, mk_entry 5 6), (2, mk_entry 6 9)]) 0) =
     \<lparr>loss_chg = 2, SplitIndex = 3, split_value = 7 / 2, DefaultLeft = True\<rparr> \<and>
   midfix None 4 [1, 6, 9] = Some (7 / 2)"
proof -
  let ?b = "example_builder 1 0 (mk_stats 0 4)"
  let ?s0 = "\<lparr>mtemp = mid_temp1, last_fvalue_map = Map.empty, updated_nid = {}\<rparr>"
  have p: "position ?b r = 0" for r
    by (simp add: example_builder_def)
  have h1: "at_node ?b 0 (snd (1::nat, mk_entry 5 6))" by (simp add: at_node_def p)
  have pre: "midpoint_pass ?b 3 ?s0 [(0, mk_entry 4 1)] =
      \<lparr>mtemp = mid_temp1, last_fvalue_map = [0 \<mapsto> 1], updated_nid = {}\<rparr>"
    by (simp add: midpoint_pass_def midpoint_entry_unfold p mid_temp1_def mk_entry_def)
  have h2: "best (mtemp (midpoint_pass ?b 3 ?s0 [(0, mk_entry 4 1)]) 0) =
      \<lparr>loss_chg = 2, SplitIndex = 3, split_value = 4, DefaultLeft = True\<rparr>"
    unfolding pre by (simp add: mid_temp1_def entry0_def)
  have h3: "0 \<notin> updated_nid (midpoint_pass ?b 3 ?s0 [(0, mk_entry 4 1)])" by (simp add: pre)
  have h4: "last_fvalue_map (midpoint_pass ?b 3 ?s0 [(0, mk_entry 4 1)]) 0 = Some 1"
    by (simp add: pre)
  have h5: "fvalue (snd (1::nat, mk_entry 5 6)) = 6" by (simp add: mk_entry_def)
  note t = midpoint_pass_corrects_once [where b="?b" and t=mid_temp1 and nid=0 and fid=3,
      unfolded Let_def, THEN conjunct1, rule_format,
      where pre="[(0, mk_entry 4 1)]" and it="(1, mk_entry 5 6)" and post="[(2, mk_entry 6 9)]"
        and lv=1]
  have r: "best (mtemp (midpoint_pass ?b 3 ?s0
          [(0, mk_entry 4 1), (1, mk_entry 5 6), (2, mk_entry 6 9)]) 0) =
     \<lparr>loss_chg = 2, SplitIndex = 3, split_value = 7 / 2, DefaultLeft = True\<rparr>"
    using t h1 h3 h4 unfolding h2 h5 by (simp add: mid_temp1_def)
  have m: "midfix None 4 [1, 6, 9] = Some (7 / 2)" by simp
  from h1 h2 h3 h4 h5 r m show ?thesis by blast
qed

subsection \<open>Shape of the queues during the main sweep\<close>

lemma sweep_entry_node_cases:
  "sweep_entry b d fid gpair temp it nid = temp nid \<or>
   sweep_entry b d fid gpair temp it nid = absorb gpair it (temp nid) \<or>
   sweep_entry b d fid gpair temp it nid =
     absorb gpair it
       (try_split b d fid nid (fvalue (snd it)) (fsub b (fvalue (snd it)) (robust_eps b))
          (drain_both gpair (fsub b (fvalue (snd it)) (robust_eps b))
            (fsub b (fsub b (fvalue (snd it)) (robust_eps b)) (robust_eps b)) (temp nid)))"
  unfolding sweep_entry_def Let_def by simp

lemma suffix_dropWhile_both:
  assumes "suffix xs ys" and "\<And>x. Q x \<Longrightarrow> P x"
  shows "suffix (dropWhile P xs) (dropWhile Q ys)"
proof -
  have same: "suffix (dropWhile P zs) (dropWhile Q zs)" for zs
  proof (induction zs)
    case Nil
    then show ?case by simp
  next
    case (Cons z zs)
    show ?case
    proof (cases "Q z")
      case True
      then show ?thesis using Cons assms(2) by simp
    next
      case False
      then show ?thesis using suffix_dropWhile [of P "z # zs"] by simp
    qed
  qed
  from assms(1) obtain pre where "ys = pre @ xs" by (auto simp add: suffix_def)
  then show ?thesis
  proof (induction pre arbitrary: ys)
    case Nil
    then show ?case using same by simp
  next
    case (Cons a pre)
    show ?case
    proof (cases "Q a")
      case True
      then show ?thesis using Cons by simp
    next
      case False
      have "suffix (dropWhile P xs) xs" by (rule suffix_dropWhile)
      also have "suffix xs ys" using Cons.prems by (simp add: suffix_def)
      finally show ?thesis using False Cons.prems by simp
    qed
  qed
qed

lemma sorted_wrt_map_dropWhile:
  "sorted_wrt R (map f xs) \<Longrightarrow> sorted_wrt R (map f (dropWhile P xs))"
  by (induction xs) auto

lemma drain_both_queues:
  "data_unc_right (drain_both gpair eta bound e) =
     dropWhile (\<lambda>p. fvalue (snd p) < eta) (data_unc_right e)"
  "data_unc (drain_both gpair eta bound e) =
     dropWhile (\<lambda>p. fvalue (snd p) < bound) (data_unc e)"
  by (simp_all add: drain_both_char)

lemma absorb_queues:
  "data_unc_right (absorb gpair it e) = data_unc_right e @ [it]"
  "data_unc (absorb gpair it e) = data_unc e @ [it]"
  by (simp_all add: absorb_def)

lemma queues_ok_drain:
  assumes "queues_ok n e" and "bound \<le> eta"
  shows "queues_ok n (drain_both gpair eta bound e)"
proof -
  have "suffix (dropWhile (\<lambda>p. fvalue (snd p) < eta) (data_unc_right e))
          (dropWhile (\<lambda>p. fvalue (snd p) < bound) (data_unc e))"
    using assms by (intro suffix_dropWhile_both) (auto simp add: queues_ok_def)
  moreover have "sorted_wrt (<) (map fst (dropWhile (\<lambda>p. fvalue (snd p) < bound) (data_unc e)))"
    using assms(1) by (simp add: queues_ok_def sorted_wrt_map_dropWhile)
  moreover have "\<forall>p \<in> set (dropWhile (\<lambda>p. fvalue (snd p) < bound) (data_unc e)). fst p < n"
    using assms(1) by (auto simp add: queues_ok_def dest: set_dropWhileD)
  ultimately show ?thesis by (simp add: queues_ok_def drain_both_queues)
qed

lemma queues_ok_try_split:
  "queues_ok n e \<Longrightarrow> queues_ok n (try_split b d fid nid fv eta e)"
  by (simp add: queues_ok_def try_split_fields)

lemma queues_ok_absorb:
  assumes "queues_ok n e"
  shows "queues_ok (Suc n) (absorb gpair (n, ent) e)"
  using assms
  by (auto simp add: queues_ok_def absorb_queues sorted_wrt_append less_Suc_eq)

lemma queues_ok_mono: "queues_ok n e \<Longrightarrow> queues_ok (Suc n) e"
  by (auto simp add: queues_ok_def less_Suc_eq)

lemma queues_ok_step:
  assumes "queues_ok n (temp nid)"
    and "\<forall>x. fsub b (fsub b x (robust_eps b)) (robust_eps b) \<le> fsub b x (robust_eps b)"
  shows "queues_ok (Suc n) (sweep_entry b d fid gpair temp (n, ent) nid)"
proof -
  have 1: "queues_ok (Suc n) (temp nid)" by (rule queues_ok_mono [OF assms(1)])
  have 2: "queues_ok (Suc n) (absorb gpair (n, ent) (temp nid))"
    by (rule queues_ok_absorb [OF assms(1)])
  have 3: "queues_ok (Suc n) (absorb gpair (n, ent)
       (try_split b d fid nid (fvalue (snd (n, ent))) (fsub b (fvalue (snd (n, ent))) (robust_eps b))
          (drain_both gpair (fsub b (fvalue (snd (n, ent))) (robust_eps b))
            (fsub b (fsub b (fvalue (snd (n, ent))) (robust_eps b)) (robust_eps b)) (temp nid))))"
    using assms(2) by (intro queues_ok_absorb queues_ok_try_split queues_ok_drain assms(1)) simp
  show ?thesis
    using sweep_entry_node_cases [of b d fid gpair temp "(n, ent)" nid] 1 2 3 by metis
qed

lemma main_sweep_snoc:
  "main_sweep b d fid gpair temp (its @ [it]) =
     sweep_entry b d fid gpair (main_sweep b d fid gpair temp its) it"
  by (simp add: main_sweep_def)

lemma take_Suc_enumerate:
  "n < length xs \<Longrightarrow> take (Suc n) (enumerate 0 xs) = take n (enumerate 0 xs) @ [(n, xs ! n)]"
  by (simp add: take_Suc_conv_app_nth nth_enumerate_eq)

lemma queues_ok_sweep:
  assumes "queues_ok 0 (temp nid)"
    and "\<forall>x. fsub b (fsub b x (robust_eps b)) (robust_eps b) \<le> fsub b x (robust_eps b)"
  shows "queues_ok n (main_sweep b d fid gpair temp (take n (enumerate 0 xs)) nid)"
proof (induction n)
  case 0
  then show ?case using assms(1) by (simp add: main_sweep_def)
next
  case (Suc n)
  show ?case
  proof (cases "n < length xs")
    case True
    then show ?thesis
      using queues_ok_step [where temp="main_sweep b d fid gpair temp (take n (enumerate 0 xs))"
          and nid=nid and n=n and b=b, OF Suc assms(2)]
      by (simp add: take_Suc_enumerate main_sweep_snoc)
  next
    case False
    then have "take (Suc n) (enumerate 0 xs) = take n (enumerate 0 xs)" by simp
    then show ?thesis using Suc by (simp add: queues_ok_mono)
  qed
qed


lemma step_queue_subset:
  "set (data_unc (sweep_entry b d fid gpair temp it nid)) \<subseteq> insert it (set (data_unc (temp nid)))"
  "set (data_unc_right (sweep_entry b d fid gpair temp it nid)) \<subseteq>
     insert it (set (data_unc_right (temp nid)))"
  using sweep_entry_node_cases [of b d fid gpair temp it nid]
  by (auto simp add: absorb_queues try_split_fields drain_both_queues dest: set_dropWhileD)

lemma sweep_no_reinsert:
  assumes "m \<le> n" and "fst p < m"
  shows "(p \<notin> set (data_unc (main_sweep b d fid gpair temp (take m (enumerate 0 xs)) nid)) \<longrightarrow>
          p \<notin> set (data_unc (main_sweep b d fid gpair temp (take n (enumerate 0 xs)) nid))) \<and>
         (p \<notin> set (data_unc_right (main_sweep b d fid gpair temp (take m (enumerate 0 xs)) nid)) \<longrightarrow>
          p \<notin> set (data_unc_right (main_sweep b d fid gpair temp (take n (enumerate 0 xs)) nid)))"
  using assms(1)
proof (induction n)
  case 0
  then show ?case by simp
next
  case (Suc n)
  show ?case
  proof (cases "m = Suc n")
    case True
    then show ?thesis by simp
  next
    case False
    then have mn: "m \<le> n" using Suc.prems by simp
    note IH = Suc.IH [OF mn]
    show ?thesis
    proof (cases "n < length xs")
      case True
      have ne: "p \<noteq> (n, xs ! n)" using assms(2) mn by auto
      show ?thesis
        using IH ne
          step_queue_subset [of b d fid gpair
            "main_sweep b d fid gpair temp (take n (enumerate 0 xs))" "(n, xs ! n)" nid]
        by (auto simp add: take_Suc_enumerate [OF True] main_sweep_snoc)
    next
      case False
      then have "take (Suc n) (enumerate 0 xs) = take n (enumerate 0 xs)" by simp
      then show ?thesis using IH by simp
    qed
  qed
qed


lemma queues_ok_clear: "nid \<in> set q \<Longrightarrow> queues_ok 0 (clear_temp q temp nid)"
  by (simp add: clear_temp_in clear_node_def queues_ok_def)

lemma closing_node_queues:
  "data_unc (closing_node b d fid nid e) = data_unc e"
  "data_unc_right (closing_node b d fid nid e) = data_unc_right e"
  by (simp_all add: closing_node_unfold)

lemma closing_pass_queues:
  "data_unc (closing_pass b d fid q temp nid) = data_unc (temp nid)"
  "data_unc_right (closing_pass b d fid q temp nid) = data_unc_right (temp nid)"
  by (cases "nid \<in> set q"; simp add: closing_pass_in closing_pass_notin closing_node_queues)+

lemma midpoint_pass_queues:
  "data_unc (mtemp (midpoint_pass b fid s its) nid) = data_unc (mtemp s nid)"
  "data_unc_right (mtemp (midpoint_pass b fid s its) nid) = data_unc_right (mtemp s nid)"
  using midpoint_pass_frame [of b fid s its nid] by auto

lemma EnumerateSplit_queues:
  "data_unc (EnumerateSplit b col d fid gpair temp nid) =
     data_unc (main_sweep b d fid gpair (clear_temp (qexpand b) temp) (scan_order col) nid)"
  "data_unc_right (EnumerateSplit b col d fid gpair temp nid) =
     data_unc_right (main_sweep b d fid gpair (clear_temp (qexpand b) temp) (scan_order col) nid)"
  unfolding EnumerateSplit_def Let_def
  by (simp_all add: midpoint_pass_queues closing_pass_queues)


lemma sorted_wrt_suffix_map:
  "suffix xs ys \<Longrightarrow> sorted_wrt R (map f ys) \<Longrightarrow> sorted_wrt R (map f xs)"
  by (auto simp add: suffix_def sorted_wrt_append)

text \<open>
  C4. With \<open>eps \<ge> 0\<close>, at every point \<open>n\<close> of the main sweep (and so after it) and for
  every frontier node: \<open>data_unc_right\<close> is a suffix of \<open>data_unc\<close>, hence every entry it
  holds is held by \<open>data_unc\<close>; both queues are strictly ordered by scan position; and an
  entry scanned before an earlier point \<open>m\<close> and absent from a queue at \<open>m\<close> is absent from it
  at \<open>n\<close>: a popped entry is never inserted again. The closing pass and the midpoint pass
  do not touch the queues. Of the single-precision subtraction only this is used:
  subtracting a non-negative number from a difference it has produced does not give a
  larger number, so that the second drain bound is at most \<open>eta\<close>; exact subtraction and
  every rounding of it to a set of numbers that holds the minuend satisfy this.
\<close>

theorem queues_stay_nested_and_ordered:
  assumes "0 \<le> robust_eps b"
    and "\<forall>x y. 0 \<le> y \<longrightarrow> fsub b (fsub b x y) y \<le> fsub b x y"
    and "nid \<in> set (qexpand b)" and "m \<le> n"
  shows "let S = (\<lambda>j. main_sweep b d_step fid gpair (clear_temp (qexpand b) temp)
                     (take j (scan_order col)) nid)
         in suffix (data_unc_right (S n)) (data_unc (S n)) \<and>
            set (data_unc_right (S n)) \<subseteq> set (data_unc (S n)) \<and>
            sorted_wrt (<) (map fst (data_unc (S n))) \<and>
            sorted_wrt (<) (map fst (data_unc_right (S n))) \<and>
            (\<forall>p \<in> set (data_unc (S n)). fst p < n) \<and>
            (\<forall>p. fst p < m \<and> p \<notin> set (data_unc (S m)) \<longrightarrow> p \<notin> set (data_unc (S n))) \<and>
            (\<forall>p. fst p < m \<and> p \<notin> set (data_unc_right (S m)) \<longrightarrow>
                 p \<notin> set (data_unc_right (S n))) \<and>
            data_unc (EnumerateSplit b col d_step fid gpair temp nid) = data_unc (S (length col)) \<and>
            data_unc_right (EnumerateSplit b col d_step fid gpair temp nid) =
              data_unc_right (S (length col))"
proof -
  define xs where "xs = (if descent col then rev col else col)"
  define t0 where "t0 = clear_temp (qexpand b) temp"
  define S where "S = (\<lambda>j. main_sweep b d_step fid gpair t0 (take j (enumerate 0 xs)) nid)"
  have so: "scan_order col = enumerate 0 xs" by (simp add: scan_order_def xs_def)
  have fs: "\<forall>x. fsub b (fsub b x (robust_eps b)) (robust_eps b) \<le> fsub b x (robust_eps b)"
    using assms(1) assms(2) by simp
  have ok: "queues_ok n (S n)"
    unfolding S_def t0_def
    by (rule queues_ok_sweep [where temp="clear_temp (qexpand b) temp" and nid=nid and b=b,
          OF queues_ok_clear [OF assms(3)] fs])
  have 1: "suffix (data_unc_right (S n)) (data_unc (S n))"
    and 3: "sorted_wrt (<) (map fst (data_unc (S n)))"
    and 5: "\<forall>p \<in> set (data_unc (S n)). fst p < n"
    using ok by (simp_all add: queues_ok_def)
  have 2: "set (data_unc_right (S n)) \<subseteq> set (data_unc (S n))"
    using 1 by (rule set_mono_suffix)
  have 4: "sorted_wrt (<) (map fst (data_unc_right (S n)))"
    using 1 3 by (rule sorted_wrt_suffix_map)
  have 6: "\<forall>p. fst p < m \<and> p \<notin> set (data_unc (S m)) \<longrightarrow> p \<notin> set (data_unc (S n))"
    and 7: "\<forall>p. fst p < m \<and> p \<notin> set (data_unc_right (S m)) \<longrightarrow>
                 p \<notin> set (data_unc_right (S n))"
    using sweep_no_reinsert [OF assms(4), of _ b d_step fid gpair t0 xs nid]
    unfolding S_def by blast+
  have full: "take (length col) (enumerate 0 xs) = enumerate 0 xs"
    by (simp add: xs_def)
  have 8: "data_unc (EnumerateSplit b col d_step fid gpair temp nid) = data_unc (S (length col))"
    and 9: "data_unc_right (EnumerateSplit b col d_step fid gpair temp nid) =
              data_unc_right (S (length col))"
    unfolding S_def full t0_def by (simp_all add: EnumerateSplit_queues so)
  from 1 2 3 4 5 6 7 8 9 show ?thesis
    unfolding Let_def so S_def t0_def by blast
qed

theorem queues_stay_nested_and_ordered_witness:
  "(0::real) \<le> robust_eps (example_builder 1 (1/2) (mk_stats 0 3)) \<and>
   fsub (example_builder 1 (1/2) (mk_stats 0 3)) = (\<lambda>x y. x - y) \<and>
   (0::int) \<in> set (qexpand (example_builder 1 (1/2) (mk_stats 0 3))) \<and> (2::nat) \<le> 3 \<and>
   suffix
     (data_unc_right (main_sweep (example_builder 1 (1/2) (mk_stats 0 3)) 1 0 (\<lambda>i. mk_gpair 1 1)
        (clear_temp (qexpand (example_builder 1 (1/2) (mk_stats 0 3))) (\<lambda>n. entry0))
        (take 3 (scan_order col123)) 0))
     (data_unc (main_sweep (example_builder 1 (1/2) (mk_stats 0 3)) 1 0 (\<lambda>i. mk_gpair 1 1)
        (clear_temp (qexpand (example_builder 1 (1/2) (mk_stats 0 3))) (\<lambda>n. entry0))
        (take 3 (scan_order col123)) 0)) \<and>
   data_unc (main_sweep (example_builder 1 (1/2) (mk_stats 0 3)) 1 0 (\<lambda>i. mk_gpair 1 1)
        (clear_temp (qexpand (example_builder 1 (1/2) (mk_stats 0 3))) (\<lambda>n. entry0))
        (take 3 (scan_order col123)) 0) = [(1, mk_entry 1 2), (2, mk_entry 2 3)]"
proof -
  let ?b = "example_builder 1 (1/2) (mk_stats 0 3)"
  have h1: "(0::real) \<le> robust_eps ?b" by (simp add: example_builder_def)
  have h0: "\<forall>x y. 0 \<le> y \<longrightarrow> fsub ?b (fsub ?b x y) y \<le> fsub ?b x y"
    by (simp add: example_builder_def)
  have h4: "fsub ?b = (\<lambda>x y. x - y)" by (simp add: example_builder_def)
  have h2: "(0::int) \<in> set (qexpand ?b)" by (simp add: example_builder_def)
  have h3: "(2::nat) \<le> 3" by simp
  note t = queues_stay_nested_and_ordered [where b="?b" and nid=0 and m=2 and n=3
      and d_step=1 and fid=0 and gpair="\<lambda>i. mk_gpair 1 1" and temp="\<lambda>n. entry0" and col=col123,
      OF h1 h0 h2 h3]
  have v: "data_unc (main_sweep ?b 1 0 (\<lambda>i. mk_gpair 1 1)
        (clear_temp (qexpand ?b) (\<lambda>n. entry0))
        (take 3 (scan_order col123)) 0) = [(1, mk_entry 1 2), (2, mk_entry 2 3)]"
    by code_simp
  from h1 h4 h2 h3 t v show ?thesis unfolding Let_def by blast
qed

subsection \<open>The candidate offered by the main sweep\<close>

lemma foldl_Add_sums:
  "sum_grad (foldl Add s gs) = sum_grad s + sum_list (map grad gs)"
  "sum_hess (foldl Add s gs) = sum_hess s + sum_list (map hess gs)"
  by (induction gs arbitrary: s) (simp_all add: Add_def)

lemma foldl_Subtract_sums:
  "sum_grad (foldl Subtract s gs) = sum_grad s - sum_list (map grad gs)"
  "sum_hess (foldl Subtract s gs) = sum_hess s - sum_list (map hess gs)"
  by (induction gs arbitrary: s) (simp_all add: Subtract_def)

lemma sum_list_take_drop_While:
  fixes f :: "'a \<Rightarrow> real"
  shows "sum_list (map f xs) = sum_list (map f (takeWhile P xs)) + sum_list (map f (dropWhile P xs))"
proof -
  have "sum_list (map f xs) = sum_list (map f (takeWhile P xs @ dropWhile P xs))" by simp
  then show ?thesis unfolding map_append sum_list_append .
qed

lemma sums_ok_drain:
  assumes "sums_ok gpair e"
  shows "sums_ok gpair (drain_both gpair eta bound e)"
proof -
  let ?Pr = "\<lambda>p. fvalue (snd p) < eta"
  let ?Pu = "\<lambda>p. fvalue (snd p) < bound"
  note r1 = sum_list_take_drop_While [of "\<lambda>p. grad (gpair (index (snd p)))" "data_unc_right e" ?Pr]
  note r2 = sum_list_take_drop_While [of "\<lambda>p. hess (gpair (index (snd p)))" "data_unc_right e" ?Pr]
  note u1 = sum_list_take_drop_While [of "\<lambda>p. grad (gpair (index (snd p)))" "data_unc e" ?Pu]
  note u2 = sum_list_take_drop_While [of "\<lambda>p. hess (gpair (index (snd p)))" "data_unc e" ?Pu]
  show ?thesis
    using assms r1 r2 u1 u2
    unfolding sums_ok_def drain_both_char
    by (simp add: foldl_Add_sums foldl_Subtract_sums comp_def)
qed

lemma sums_ok_try_split:
  "sums_ok gpair e \<Longrightarrow> sums_ok gpair (try_split b d fid nid fv eta e)"
  by (simp add: sums_ok_def try_split_fields)

lemma sums_ok_absorb:
  "sums_ok gpair e \<Longrightarrow> sums_ok gpair (absorb gpair it e)"
  by (simp add: sums_ok_def absorb_def Add_def)





lemma GradStats_eqI: "sum_grad s = sum_grad t \<Longrightarrow> sum_hess s = sum_hess t \<Longrightarrow> s = t"
  for s t :: GradStats
  by simp


lemma try_split_gate:
  "try_split b d fid nid fv eta e =
     (if fv \<noteq> last_fvalue e \<and> min_child_weight b \<le> sum_hess (stats e) \<and>
         min_child_weight b \<le> sum_hess (SetSubstract (node_stats (snode b nid)) (stats_left e))
      then e\<lparr>best := Update (best e) (robust_loss_chg b d nid fid e) fid eta (d = -1)\<rparr>
      else e)"
  unfolding try_split_def Let_def by auto

lemma drain_both_fields:
  "stats (drain_both gpair eta bound e) = stats e"
  "last_fvalue (drain_both gpair eta bound e) = last_fvalue e"
  "best (drain_both gpair eta bound e) = best e"
  by (simp_all add: drain_both_char)


lemma bal_drain: "bal e \<Longrightarrow> bal (drain_both gpair eta bound e)"
  unfolding bal_def drain_both_char
  by (simp add: foldl_Add_sums foldl_Subtract_sums)

lemma bal_try_split: "bal e \<Longrightarrow> bal (try_split b d fid nid fv eta e)"
  by (simp add: bal_def try_split_fields)

lemma bal_absorb: "bal e \<Longrightarrow> bal (absorb gpair it e)"
  by (simp add: bal_def absorb_def Add_def)














subsection \<open>Comparison with the non-robust enumeration at eps = 0\<close>

lemma sweep_entry_at:
  "at_node b nid (snd it) \<Longrightarrow>
     sweep_entry b d fid gpair temp it nid = robust_node_step b d fid gpair nid (temp nid) it"
  unfolding sweep_entry_def robust_node_step_def at_node_def Let_def by auto

lemma sweep_entry_not_at:
  "\<not> at_node b nid (snd it) \<Longrightarrow> sweep_entry b d fid gpair temp it nid = temp nid"
  unfolding sweep_entry_def at_node_def Let_def by auto

lemma main_sweep_node:
  "main_sweep b d fid gpair temp its nid =
     foldl (robust_node_step b d fid gpair nid) (temp nid)
       (filter (\<lambda>it. at_node b nid (snd it)) its)"
proof (induction its rule: rev_induct)
  case Nil
  then show ?case by (simp add: main_sweep_def)
next
  case (snoc it its)
  show ?case
  proof (cases "at_node b nid (snd it)")
    case True
    then show ?thesis using snoc by (simp add: main_sweep_snoc sweep_entry_at)
  next
    case False
    then show ?thesis using snoc by (simp add: main_sweep_snoc sweep_entry_not_at)
  qed
qed

lemma UpdateEnumeration_other:
  "m \<noteq> nid \<Longrightarrow> UpdateEnumeration b nid g fv d fid temp m = temp m"
  unfolding UpdateEnumeration_def Let_def by simp

lemma UpdateEnumeration_node:
  "UpdateEnumeration b nid (gpair (index p)) (fvalue p) d fid temp nid =
     std_node_step b d fid gpair nid (temp nid) p"
  unfolding UpdateEnumeration_def std_node_step_def Let_def by auto

lemma cache_opt_entry_at:
  "at_node b nid p \<Longrightarrow>
     cache_opt_entry b d fid gpair temp p nid = std_node_step b d fid gpair nid (temp nid) p"
  unfolding cache_opt_entry_def Let_def at_node_def
  using UpdateEnumeration_node [of b nid gpair p d fid temp] by auto

lemma cache_opt_entry_not_at:
  "\<not> at_node b nid p \<Longrightarrow> cache_opt_entry b d fid gpair temp p nid = temp nid"
  unfolding cache_opt_entry_def Let_def at_node_def
  by (auto simp add: UpdateEnumeration_other)

lemma cache_opt_node:
  "foldl (cache_opt_entry b d fid gpair) temp col nid =
     foldl (std_node_step b d fid gpair nid) (temp nid) (filter (at_node b nid) col)"
proof (induction col rule: rev_induct)
  case Nil
  then show ?case by simp
next
  case (snoc p col)
  show ?case
  proof (cases "at_node b nid p")
    case True
    then show ?thesis using snoc by (simp add: cache_opt_entry_at)
  next
    case False
    then show ?thesis using snoc by (simp add: cache_opt_entry_not_at)
  qed
qed

text \<open>
  C8. The claim reads the specification rightly (with \<open>eps = 0\<close> the robust enumeration is
  meant to select the split of the non-robust one), and the code departs from it in a
  backward sweep. Input: \<open>robust_eps = 0\<close>, \<open>min_child_weight = 1\<close>, four rows at the root
  with gradient pairs \<open>(1, 1)\<close>, \<open>(1, 1)\<close>, \<open>(-1, 1)\<close>, \<open>(-3, 1)\<close>; the first three have the
  values 1, 2, 3 in the column of feature 5, the fourth has no value there; the column is
  walked backward (\<open>d_step = -1\<close>, from the entry with value 3 to the entry with value 1).
  The non-robust enumeration of the same file selects the split with all valued rows on the
  right and the missing row on the left, of loss change \<open>79/20\<close>. The robust enumeration
  walks the column in ascending order, accumulates the rows below the threshold, and still
  scores them as the right side and stores \<open>default_left\<close>: it selects the threshold \<open>5/2\<close>
  with the recorded loss change \<open>88/15\<close>, which is the loss change of rows 0 and 1 against
  rows 2 and 3. The split it stores (values below \<open>5/2\<close> and missing values to the left)
  sends the rows 0, 1 and 3 to the left, a partition of loss change \<open>-1/20\<close>.
\<close>

theorem eps0_backward_sweep_differs:
  "robust_eps c8_builder = 0 \<and>
   best (EnumerateSplit c8_builder (rev col123) (-1) 5 c8_gpair c8_temp 0) =
     \<lparr>loss_chg = 88 / 15, SplitIndex = 5, split_value = 5 / 2, DefaultLeft = True\<rparr> \<and>
   best (EnumerateSplitCacheOpt c8_builder (rev col123) (-1) 5 c8_gpair c8_temp 0) =
     \<lparr>loss_chg = 79 / 20, SplitIndex = 5, split_value = - (1 / 1000000), DefaultLeft = True\<rparr> \<and>
   partition_loss_chg c8_builder 0 5 (foldl Add Clear [c8_gpair 0, c8_gpair 1]) = 88 / 15 \<and>
   partition_loss_chg c8_builder 0 5 (foldl Add Clear [c8_gpair 0, c8_gpair 1, c8_gpair 3]) =
     - 1 / 20 \<and>
   partition_loss_chg c8_builder 0 5 (foldl Add Clear [c8_gpair 3]) = 79 / 20"
  by code_simp

lemma absorb_fields:
  "stats (absorb gpair it e) = Add (stats e) (gpair (index (snd it)))"
  "last_fvalue (absorb gpair it e) = fvalue (snd it)"
  "best (absorb gpair it e) = best e"
  by (simp_all add: absorb_def)

lemma scanned_ok_absorb:
  assumes "scanned_ok gpair vals e" and "vals \<noteq> [] \<longrightarrow> last vals \<le> fvalue (snd it)"
  shows "scanned_ok gpair (vals @ [fvalue (snd it)]) (absorb gpair it e)"
proof -
  have le: "fvalue (snd p) \<le> fvalue (snd it)"
    if "p \<in> set (data_unc e) \<or> p \<in> set (data_unc_right e)" for p
  proof -
    have "vals \<noteq> []" using assms(1) that by (auto simp add: scanned_ok_def)
    then have "last_fvalue e \<le> fvalue (snd it)" using assms by (simp add: scanned_ok_def)
    moreover have "fvalue (snd p) \<le> last_fvalue e"
      using assms(1) that by (auto simp add: scanned_ok_def)
    ultimately show ?thesis by simp
  qed
  have "sums_ok gpair (absorb gpair it e)" "bal (absorb gpair it e)"
    using assms(1) by (simp_all add: scanned_ok_def sums_ok_absorb bal_absorb)
  moreover have "\<forall>p \<in> set (data_unc_right (absorb gpair it e)).
      fvalue (snd p) \<le> last_fvalue (absorb gpair it e)"
    using le by (auto simp add: absorb_queues absorb_fields)
  moreover have "\<forall>p \<in> set (data_unc (absorb gpair it e)).
      fvalue (snd p) \<le> last_fvalue (absorb gpair it e)"
    using le by (auto simp add: absorb_queues absorb_fields)
  ultimately show ?thesis by (simp add: scanned_ok_def absorb_fields)
qed

lemma scanned_ok_drain:
  assumes "scanned_ok gpair vals e"
  shows "scanned_ok gpair vals (drain_both gpair eta bound e)"
proof -
  have "sums_ok gpair (drain_both gpair eta bound e)" "bal (drain_both gpair eta bound e)"
    using assms by (simp_all add: scanned_ok_def sums_ok_drain bal_drain)
  moreover have "\<forall>p \<in> set (data_unc_right (drain_both gpair eta bound e)).
      fvalue (snd p) \<le> last_fvalue (drain_both gpair eta bound e)"
    using assms by (auto simp add: scanned_ok_def drain_both_queues drain_both_fields
        dest: set_dropWhileD)
  moreover have "\<forall>p \<in> set (data_unc (drain_both gpair eta bound e)).
      fvalue (snd p) \<le> last_fvalue (drain_both gpair eta bound e)"
    using assms by (auto simp add: scanned_ok_def drain_both_queues drain_both_fields
        dest: set_dropWhileD)
  moreover have "vals = [] \<longrightarrow> data_unc (drain_both gpair eta bound e) = [] \<and>
      data_unc_right (drain_both gpair eta bound e) = []"
    using assms by (simp add: scanned_ok_def drain_both_queues)
  ultimately show ?thesis
    using assms by (simp add: scanned_ok_def drain_both_fields)
qed

lemma scanned_ok_try_split:
  "scanned_ok gpair vals e \<Longrightarrow> scanned_ok gpair vals (try_split b d fid nid fv eta e)"
  by (simp add: scanned_ok_def sums_ok_try_split bal_try_split try_split_fields)

lemma scanned_ok_step:
  assumes "scanned_ok gpair vals e" and "vals \<noteq> [] \<longrightarrow> last vals \<le> fvalue (snd it)"
  shows "scanned_ok gpair (vals @ [fvalue (snd it)]) (robust_node_step b d fid gpair nid e it)"
proof (cases "Empty (stats e)")
  case True
  then show ?thesis
    using scanned_ok_absorb [OF assms] by (simp add: robust_node_step_def)
next
  case False
  have "scanned_ok gpair vals
      (try_split b d fid nid (fvalue (snd it)) (fsub b (fvalue (snd it)) (robust_eps b))
         (drain_both gpair (fsub b (fvalue (snd it)) (robust_eps b))
            (fsub b (fsub b (fvalue (snd it)) (robust_eps b)) (robust_eps b)) e))"
    by (intro scanned_ok_try_split scanned_ok_drain assms(1))
  from scanned_ok_absorb [OF this assms(2)] show ?thesis
    using False by (simp add: robust_node_step_def)
qed

lemma drain_collapse:
  assumes "scanned_ok gpair vals e" and "last_fvalue e < v"
  shows "data_unc (drain_both gpair v v e) = []"
    and "data_unc_right (drain_both gpair v v e) = []"
    and "stats_left (drain_both gpair v v e) = stats e"
proof -
  let ?e = "drain_both gpair v v e"
  show u: "data_unc ?e = []"
    using assms by (auto simp add: drain_both_queues scanned_ok_def)
  show r: "data_unc_right ?e = []"
    using assms by (auto simp add: drain_both_queues scanned_ok_def)
  have ok: "scanned_ok gpair vals ?e" by (rule scanned_ok_drain [OF assms(1)])
  have z: "sum_grad (stats_unc_right ?e) = 0" "sum_hess (stats_unc_right ?e) = 0"
    using ok by (simp_all add: scanned_ok_def sums_ok_def r)
  have "bal ?e" using ok by (simp add: scanned_ok_def)
  then have "sum_grad (stats_left ?e) = sum_grad (stats ?e)"
    "sum_hess (stats_left ?e) = sum_hess (stats ?e)"
    by (simp_all add: bal_def z)
  then show "stats_left ?e = stats e"
    by (intro GradStats_eqI) (simp_all add: drain_both_fields)
qed

lemma robust_node_step_fields:
  "stats (robust_node_step b d fid gpair nid e it) = Add (stats e) (gpair (index (snd it)))"
  "last_fvalue (robust_node_step b d fid gpair nid e it) = fvalue (snd it)"
  by (simp_all add: robust_node_step_def absorb_fields try_split_fields drain_both_fields)

lemma robust_node_step_best:
  assumes "scanned_ok gpair vals e" and "vals \<noteq> [] \<longrightarrow> last vals \<le> fvalue (snd it)"
    and "robust_eps b = 0 \<and> (\<forall>x. fsub b x 0 = x)"
  shows "best (robust_node_step b 1 fid gpair nid e it) =
     (if \<not> Empty (stats e) \<and> fvalue (snd it) \<noteq> last_fvalue e \<and>
         min_child_weight b \<le> sum_hess (stats e) \<and>
         min_child_weight b \<le> sum_hess (SetSubstract (node_stats (snode b nid)) (stats e))
      then Update (best e)
             (split_loss_chg b 1 nid fid (stats e)
                (SetSubstract (node_stats (snode b nid)) (stats e)))
             fid (fvalue (snd it)) False
      else best e)"
proof (cases "Empty (stats e)")
  case True
  then show ?thesis by (simp add: robust_node_step_def absorb_fields)
next
  case False
  let ?v = "fvalue (snd it)"
  let ?e = "drain_both gpair ?v ?v e"
  have ne: "vals \<noteq> []" using assms(1) False by (auto simp add: scanned_ok_def)
  then have lv: "last_fvalue e \<le> ?v" using assms(1,2) by (simp add: scanned_ok_def)
  have st: "best (robust_node_step b 1 fid gpair nid e it) =
      best (try_split b 1 fid nid ?v ?v ?e)"
    using False by (simp add: robust_node_step_def absorb_fields assms(3))
  show ?thesis
  proof (cases "?v = last_fvalue e")
    case True
    then show ?thesis
      unfolding st try_split_gate by (simp add: drain_both_fields)
  next
    case neq: False
    then have lt: "last_fvalue e < ?v" using lv by simp
    note c = drain_collapse [OF assms(1) lt]
    have loss: "robust_loss_chg b 1 nid fid ?e =
        split_loss_chg b 1 nid fid (stats e) (SetSubstract (node_stats (snode b nid)) (stats e))"
      by (simp add: robust_loss_chg_def nominal_loss_chg_def c)
    show ?thesis
      unfolding st try_split_gate loss c(3)
      using False neq by (simp add: drain_both_fields)
  qed
qed

lemma std_node_step_fields:
  "stats (std_node_step b d fid gpair nid e p) = Add (stats e) (gpair (index p))"
  "last_fvalue (std_node_step b d fid gpair nid e p) = fvalue p"
  "best (std_node_step b 1 fid gpair nid e p) =
     (if \<not> Empty (stats e) \<and> fvalue p \<noteq> last_fvalue e \<and>
         min_child_weight b \<le> sum_hess (stats e) \<and>
         min_child_weight b \<le> sum_hess (SetSubstract (node_stats (snode b nid)) (stats e))
      then Update (best e)
             (split_loss_chg b 1 nid fid (stats e)
                (SetSubstract (node_stats (snode b nid)) (stats e)))
             fid ((fvalue p + last_fvalue e) * 0.5) False
      else best e)"
  by (simp_all add: std_node_step_def)

lemma best_rel_nonempty:
  assumes "best_rel fid b0 vals u br bs" and "SplitIndex b0 \<noteq> fid" and "SplitIndex br = fid"
  shows "vals \<noteq> []"
  using assms by (auto simp add: best_rel_def)

lemma best_rel_keep:
  assumes "best_rel fid b0 vals u br bs" and "vals \<noteq> [] \<longrightarrow> u \<le> v"
  shows "best_rel fid b0 (vals @ [v]) v br bs"
proof (cases "br = b0 \<and> bs = b0")
  case True
  then show ?thesis by (simp add: best_rel_def)
next
  case False
  then have c: "SplitIndex br = fid" "bs = br\<lparr>split_value := split_value bs\<rparr>"
    "midfix None (split_value br) vals = Some (split_value bs)"
    "split_value br \<le> u" "split_value bs \<le> u"
    using assms(1) by (auto simp add: best_rel_def)
  have "vals \<noteq> []" using c(3) by auto
  then have uv: "u \<le> v" using assms(2) by simp
  have "midfix None (split_value br) (vals @ [v]) = Some (split_value bs)"
    by (rule midfix_prefix [OF c(3)])
  then show ?thesis
    unfolding best_rel_def using c(1,2,4,5) uv by auto
qed

lemma NeedReplace_agree:
  assumes "best_rel fid b0 vals u br bs" and "SplitIndex b0 \<noteq> fid" and "u < v"
  shows "NeedReplace br L fid v = NeedReplace bs L fid ((v + u) * 0.5)"
proof (cases "br = b0 \<and> bs = b0")
  case True
  then show ?thesis using assms(2) by (auto simp add: NeedReplace_def)
next
  case False
  then have c: "SplitIndex br = fid" "bs = br\<lparr>split_value := split_value bs\<rparr>"
    "split_value br \<le> u" "split_value bs \<le> u"
    using assms(1) by (auto simp add: best_rel_def)
  have f: "SplitIndex bs = fid" "loss_chg bs = loss_chg br"
    using c(1) by (subst c(2), simp)+
  have "\<not> v < split_value br" "\<not> (v + u) * 0.5 < split_value bs"
    using c(3,4) assms(3) by simp_all
  then show ?thesis by (simp add: NeedReplace_def c(1) f)
qed

lemma sorted_last_bound:
  "sorted vals \<Longrightarrow> c \<in> set vals \<Longrightarrow> c \<le> last vals"
  by (induction vals) (auto split: if_splits)

lemma best_rel_update:
  assumes "best_rel fid b0 vals u br bs" and "SplitIndex b0 \<noteq> fid" and "u < v"
    and "sorted vals" and "vals \<noteq> []" and "last vals = u"
  shows "best_rel fid b0 (vals @ [v]) v (Update br L fid v False)
           (Update bs L fid ((v + u) * 0.5) False)"
proof (cases "NeedReplace br L fid v")
  case True
  then have t: "NeedReplace bs L fid ((v + u) * 0.5)"
    using NeedReplace_agree [OF assms(1-3)] by simp
  have below: "\<forall>c \<in> set vals. c < v"
    using sorted_last_bound [OF assms(4)] assms(3,6) by fastforce
  have "midfix None v (vals @ [v]) = Some ((v + u) * 0.5)"
    using midfix_at_end [OF below assms(5), of None] assms(6) by simp
  then show ?thesis
    using True t assms(3) by (simp add: Update_def best_rel_def)
next
  case False
  then have f: "\<not> NeedReplace bs L fid ((v + u) * 0.5)"
    using NeedReplace_agree [OF assms(1-3)] by simp
  have "best_rel fid b0 (vals @ [v]) v br bs"
    using assms(3) by (intro best_rel_keep [OF assms(1)]) simp
  then show ?thesis using False f by (simp add: Update_def)
qed

lemma node_sim_step:
  assumes "node_sim fid gpair b0 vals er es" and "sorted (vals @ [fvalue (snd it)])"
    and "robust_eps b = 0 \<and> (\<forall>x. fsub b x 0 = x)" and "SplitIndex b0 \<noteq> fid"
  shows "node_sim fid gpair b0 (vals @ [fvalue (snd it)])
           (robust_node_step b 1 fid gpair nid er it)
           (std_node_step b 1 fid gpair nid es (snd it))"
proof -
  let ?v = "fvalue (snd it)"
  have a: "stats er = stats es" "last_fvalue er = last_fvalue es"
    and ok: "scanned_ok gpair vals er"
    and br: "best_rel fid b0 vals (last_fvalue er) (best er) (best es)"
    using assms(1) unfolding node_sim_def by blast+
  have sv: "sorted vals" using assms(2) by (simp add: sorted_append)
  have lv: "vals \<noteq> [] \<longrightarrow> last vals \<le> ?v"
    using assms(2) by (auto simp add: sorted_append)
  have lu: "vals \<noteq> [] \<longrightarrow> last vals = last_fvalue er"
    using ok by (simp add: scanned_ok_def)
  have ok': "scanned_ok gpair (vals @ [?v]) (robust_node_step b 1 fid gpair nid er it)"
    by (rule scanned_ok_step [OF ok lv])
  define G where "G \<longleftrightarrow> \<not> Empty (stats er) \<and> ?v \<noteq> last_fvalue er \<and>
         min_child_weight b \<le> sum_hess (stats er) \<and>
         min_child_weight b \<le> sum_hess (SetSubstract (node_stats (snode b nid)) (stats er))"
  define L where "L = split_loss_chg b 1 nid fid (stats er)
                (SetSubstract (node_stats (snode b nid)) (stats er))"
  have rb: "best (robust_node_step b 1 fid gpair nid er it) =
      (if G then Update (best er) L fid ?v False else best er)"
    unfolding G_def L_def by (rule robust_node_step_best [OF ok lv assms(3)])
  have sb: "best (std_node_step b 1 fid gpair nid es (snd it)) =
      (if G then Update (best es) L fid ((?v + last_fvalue er) * 0.5) False else best es)"
    unfolding G_def L_def std_node_step_fields a [symmetric] by (rule refl)
  have "best_rel fid b0 (vals @ [?v]) ?v
      (best (robust_node_step b 1 fid gpair nid er it))
      (best (std_node_step b 1 fid gpair nid es (snd it)))"
  proof (cases G)
    case True
    then have ne: "vals \<noteq> []" using ok by (auto simp add: G_def scanned_ok_def)
    then have "last_fvalue er \<le> ?v" using lv lu by simp
    then have lt: "last_fvalue er < ?v" using True by (simp add: G_def)
    have "last vals = last_fvalue er" using ne lu by simp
    from best_rel_update [OF br assms(4) lt sv ne this]
    show ?thesis using True by (simp add: rb sb)
  next
    case False
    have "vals \<noteq> [] \<longrightarrow> last_fvalue er \<le> ?v" using lv lu by simp
    from best_rel_keep [OF br this]
    show ?thesis using False by (simp add: rb sb)
  qed
  then show ?thesis
    using ok' a
    by (simp add: node_sim_def robust_node_step_fields std_node_step_fields)
qed

lemma node_sim_fold:
  assumes "node_sim fid gpair b0 [] er es" and "sorted (map (\<lambda>it. fvalue (snd it)) ys)"
    and "robust_eps b = 0 \<and> (\<forall>x. fsub b x 0 = x)" and "SplitIndex b0 \<noteq> fid"
  shows "node_sim fid gpair b0 (map (\<lambda>it. fvalue (snd it)) ys)
           (foldl (robust_node_step b 1 fid gpair nid) er ys)
           (foldl (std_node_step b 1 fid gpair nid) es (map snd ys))"
  using assms(2)
proof (induction ys rule: rev_induct)
  case Nil
  then show ?case using assms(1) by simp
next
  case (snoc it ys)
  have s: "sorted (map (\<lambda>it. fvalue (snd it)) ys)"
    using snoc.prems by (simp add: sorted_append)
  have s2: "sorted (map (\<lambda>it. fvalue (snd it)) ys @ [fvalue (snd it)])"
    using snoc.prems by simp
  from node_sim_step [OF snoc.IH [OF s] s2 assms(3,4)]
  show ?case by simp
qed

lemma clear_stats_notin: "nid \<notin> set q \<Longrightarrow> clear_stats q temp nid = temp nid"
  by (induction q arbitrary: temp) auto

lemma clear_stats_in:
  "nid \<in> set q \<Longrightarrow> clear_stats q temp nid = (temp nid)\<lparr>stats := Clear\<rparr>"
proof (induction q arbitrary: temp)
  case Nil
  then show ?case by simp
next
  case (Cons a q)
  show ?case
  proof (cases "nid \<in> set q")
    case True
    then have "clear_stats q (temp(a := (temp a)\<lparr>stats := Clear\<rparr>)) nid =
        ((temp(a := (temp a)\<lparr>stats := Clear\<rparr>)) nid)\<lparr>stats := Clear\<rparr>"
      by (rule Cons.IH)
    then show ?thesis by (cases "nid = a") simp_all
  next
    case False
    then have "nid = a" using Cons.prems by simp
    then show ?thesis using False by (simp add: clear_stats_notin)
  qed
qed

lemma closing_node_std_unfold:
  "closing_node_std b d_step fid nid e =
     (if min_child_weight b \<le> sum_hess (stats e) \<and>
         min_child_weight b \<le> sum_hess (SetSubstract (node_stats (snode b nid)) (stats e))
      then e\<lparr>best := Update (best e)
                 (split_loss_chg b d_step nid fid (stats e)
                    (SetSubstract (node_stats (snode b nid)) (stats e)))
                 fid
                 (last_fvalue e +
                    (if d_step = 1 then \<bar>last_fvalue e\<bar> + kRtEps b
                     else - (\<bar>last_fvalue e\<bar> + kRtEps b)))
                 (d_step = -1)\<rparr>
      else e)"
  unfolding closing_node_std_def Let_def by (rule refl)

lemma closing_node_std_idem:
  "closing_node_std b d fid nid (closing_node_std b d fid nid e) = closing_node_std b d fid nid e"
proof -
  define G where "G \<longleftrightarrow> min_child_weight b \<le> sum_hess (stats e) \<and>
         min_child_weight b \<le> sum_hess (SetSubstract (node_stats (snode b nid)) (stats e))"
  define L where "L = split_loss_chg b d nid fid (stats e)
                    (SetSubstract (node_stats (snode b nid)) (stats e))"
  define T where "T = last_fvalue e +
                    (if d = 1 then \<bar>last_fvalue e\<bar> + kRtEps b
                     else - (\<bar>last_fvalue e\<bar> + kRtEps b))"
  have 1: "closing_node_std b d fid nid e =
      (if G then e\<lparr>best := Update (best e) L fid T (d = -1)\<rparr> else e)"
    unfolding closing_node_std_unfold G_def L_def T_def by (rule refl)
  have 2: "closing_node_std b d fid nid (e\<lparr>best := X\<rparr>) =
       (if G then e\<lparr>best := Update X L fid T (d = -1)\<rparr> else e\<lparr>best := X\<rparr>)" for X
    unfolding closing_node_std_unfold G_def L_def T_def
    by (simp split del: if_split cong: if_cong)
  show ?thesis
  proof (cases G)
    case True
    then show ?thesis by (simp add: 1 2 Update_idem)
  next
    case False
    then show ?thesis by (simp add: 1)
  qed
qed

lemma closing_pass_std_notin:
  "nid \<notin> set q \<Longrightarrow> closing_pass_std b d fid q temp nid = temp nid"
  by (induction q arbitrary: temp) auto

lemma closing_pass_std_in:
  "nid \<in> set q \<Longrightarrow>
     closing_pass_std b d fid q temp nid = closing_node_std b d fid nid (temp nid)"
proof (induction q arbitrary: temp)
  case Nil
  then show ?case by simp
next
  case (Cons a q)
  show ?case
  proof (cases "nid \<in> set q")
    case True
    then have "closing_pass_std b d fid q (temp(a := closing_node_std b d fid a (temp a))) nid =
        closing_node_std b d fid nid ((temp(a := closing_node_std b d fid a (temp a))) nid)"
      by (rule Cons.IH)
    then show ?thesis by (cases "nid = a") (simp_all add: closing_node_std_idem)
  next
    case False
    then have "nid = a" using Cons.prems by simp
    then show ?thesis using False by (simp add: closing_pass_std_notin)
  qed
qed

lemma filter_enumerate_snd:
  "map snd (filter (\<lambda>it. P (snd it)) (enumerate n xs)) = filter P xs"
  by (induction xs arbitrary: n) simp_all

lemma sorted_not_descent: "sorted (map fvalue col) \<Longrightarrow> \<not> descent col"
proof (cases col)
  case Nil
  then show ?thesis by (simp add: descent_def)
next
  case (Cons a xs)
  assume "sorted (map fvalue col)"
  then have "fvalue a \<le> fvalue (last col)"
    using Cons by (cases "xs = []") auto
  then show ?thesis using Cons by (simp add: descent_def)
qed

lemma closing_best_rel:
  assumes "node_sim fid gpair b0 vals er es" and "SplitIndex b0 \<noteq> fid"
    and "robust_eps b = 0" and "0 < kRtEps b" and "sorted vals"
  shows "best (closing_node_std b 1 fid nid es) =
     (if SplitIndex (best (closing_node b 1 fid nid er)) = fid
      then moved_best (best (closing_node b 1 fid nid er))
             (midfix None (split_value (best (closing_node b 1 fid nid er))) vals)
      else best (closing_node b 1 fid nid er))"
proof -
  have a: "stats er = stats es" "last_fvalue er = last_fvalue es"
    and ok: "scanned_ok gpair vals er"
    and br: "best_rel fid b0 vals (last_fvalue er) (best er) (best es)"
    using assms(1) unfolding node_sim_def by blast+
  define G where "G \<longleftrightarrow> min_child_weight b \<le> sum_hess (stats er) \<and>
         min_child_weight b \<le> sum_hess (SetSubstract (node_stats (snode b nid)) (stats er))"
  define L where "L = split_loss_chg b 1 nid fid (stats er)
                    (SetSubstract (node_stats (snode b nid)) (stats er))"
  define T where "T = last_fvalue er + (\<bar>last_fvalue er\<bar> + kRtEps b)"
  have rb: "best (closing_node b 1 fid nid er) =
      (if G then Update (best er) L fid T False else best er)"
    unfolding closing_node_unfold G_def L_def T_def by (simp add: assms(3))
  have sb: "best (closing_node_std b 1 fid nid es) =
      (if G then Update (best es) L fid T False else best es)"
    unfolding closing_node_std_unfold G_def L_def T_def a by simp
  have Tgt: "last_fvalue er < T" using assms(4) by (simp add: T_def)
  have Tnone: "midfix None T vals = None"
  proof (cases "vals = []")
    case True
    then show ?thesis by simp
  next
    case False
    then have "last vals = last_fvalue er" using ok by (simp add: scanned_ok_def)
    then have "\<forall>c \<in> set vals. c < T"
      using sorted_last_bound [OF assms(5)] Tgt by fastforce
    then show ?thesis by (rule midfix_all_below)
  qed
  have base: "best es =
     (if SplitIndex (best er) = fid
      then moved_best (best er) (midfix None (split_value (best er)) vals)
      else best er)"
  proof (cases "best er = b0 \<and> best es = b0")
    case True
    then show ?thesis using assms(2) by simp
  next
    case False
    then have c: "SplitIndex (best er) = fid"
      "best es = (best er)\<lparr>split_value := split_value (best es)\<rparr>"
      "midfix None (split_value (best er)) vals = Some (split_value (best es))"
      using br by (auto simp add: best_rel_def)
    show ?thesis unfolding c(3) using c(1,2) by (simp add: moved_best_def)
  qed
  have cand: "(if SplitIndex \<lparr>loss_chg = L, SplitIndex = fid, split_value = T, DefaultLeft = False\<rparr> = fid
      then moved_best \<lparr>loss_chg = L, SplitIndex = fid, split_value = T, DefaultLeft = False\<rparr>
             (midfix None (split_value
                \<lparr>loss_chg = L, SplitIndex = fid, split_value = T, DefaultLeft = False\<rparr>) vals)
      else \<lparr>loss_chg = L, SplitIndex = fid, split_value = T, DefaultLeft = False\<rparr>) =
      \<lparr>loss_chg = L, SplitIndex = fid, split_value = T, DefaultLeft = False\<rparr>"
    by (simp add: Tnone moved_best_def)
  have nr: "NeedReplace (best er) L fid T = NeedReplace (best es) L fid T"
  proof (cases "best er = b0 \<and> best es = b0")
    case True
    then show ?thesis by simp
  next
    case False
    then have c: "SplitIndex (best er) = fid"
      "best es = (best er)\<lparr>split_value := split_value (best es)\<rparr>"
      "split_value (best er) \<le> last_fvalue er" "split_value (best es) \<le> last_fvalue er"
      using br by (auto simp add: best_rel_def)
    have f: "SplitIndex (best es) = fid" "loss_chg (best es) = loss_chg (best er)"
      using c(1) by (subst c(2), simp)+
    have "\<not> T < split_value (best er)" "\<not> T < split_value (best es)"
      using c(3,4) Tgt by simp_all
    then show ?thesis by (simp add: NeedReplace_def c(1) f)
  qed
  show ?thesis
  proof (cases "G \<and> NeedReplace (best er) L fid T")
    case True
    then show ?thesis
      unfolding rb sb using nr cand by (simp add: Update_def)
  next
    case False
    then have "best (closing_node b 1 fid nid er) = best er"
      "best (closing_node_std b 1 fid nid es) = best es"
      unfolding rb sb using nr by (auto simp add: Update_def)
    then show ?thesis using base by simp
  qed
qed

lemma scanned_ok_fold:
  assumes "scanned_ok gpair [] e" and "sorted (map (\<lambda>it. fvalue (snd it)) ys)"
  shows "scanned_ok gpair (map (\<lambda>it. fvalue (snd it)) ys)
           (foldl (robust_node_step b d fid gpair nid) e ys)"
  using assms(2)
proof (induction ys rule: rev_induct)
  case Nil
  then show ?case using assms(1) by simp
next
  case (snoc it ys)
  have s: "sorted (map (\<lambda>it. fvalue (snd it)) ys)"
    using snoc.prems by (simp add: sorted_append)
  have l: "map (\<lambda>it. fvalue (snd it)) ys \<noteq> [] \<longrightarrow>
      last (map (\<lambda>it. fvalue (snd it)) ys) \<le> fvalue (snd it)"
    using snoc.prems by (auto simp add: sorted_append last_map)
  from scanned_ok_step [OF snoc.IH [OF s] l] show ?case by simp
qed

lemma scanned_ok_clear: "scanned_ok gpair [] (clear_node e)"
  by (simp add: scanned_ok_def sums_ok_def bal_def clear_node_def Clear_def Empty_def)

lemma sorted_node_vals:
  assumes "sorted (map fvalue col)"
  shows "sorted (map (\<lambda>it. fvalue (snd it))
           (filter (\<lambda>it. at_node b nid (snd it)) (enumerate 0 col)))"
proof -
  have "map (\<lambda>it. fvalue (snd it)) (filter (\<lambda>it. at_node b nid (snd it)) (enumerate 0 col)) =
      map fvalue (map snd (filter (\<lambda>it. at_node b nid (snd it)) (enumerate 0 col)))"
    by (simp add: comp_def)
  also have "\<dots> = map fvalue (filter (at_node b nid) col)"
    by (simp only: filter_enumerate_snd)
  finally show ?thesis using sorted_filter [OF assms] by simp
qed

lemma take_enumerate: "take n (enumerate k xs) = enumerate k (take n xs)"
  by (induction xs arbitrary: n k) (simp_all add: take_Cons split: nat.splits)

text \<open>
  The forward sweep does not show this departure. With \<open>eps = 0\<close>, a subtraction for which
  \<open>x - 0 = x\<close>, and \<open>kRtEps > 0\<close>, on a column in ascending order scanned forward
  (\<open>d_step = 1\<close>), for a frontier node whose best entry is not on the feature of the column
  when the enumeration starts (a tie with such an entry would be broken on the thresholds,
  which the two enumerations choose differently, and the midpoint pass could move the
  threshold of that entry): the robust enumeration ends with the same
  best split as the non-robust enumeration of the same file on the same column and
  gradients; and at every entry of the node at which the value differs from the last one,
  both queues have drained (\<open>data_unc\<close> is empty and \<open>stats_left\<close> equals \<open>stats\<close>), so that
  only the nominal candidate is evaluated.
\<close>

theorem eps0_forward_same_split:
  assumes "robust_eps b = 0" and "0 < kRtEps b" and "sorted (map fvalue col)"
    and "nid \<in> set (qexpand b)" and "SplitIndex (best (temp nid)) \<noteq> fid"
    and "\<forall>x. fsub b x 0 = x"
  shows "best (EnumerateSplit b col 1 fid gpair temp nid) =
           best (EnumerateSplitCacheOpt b col 1 fid gpair temp nid) \<and>
         (\<forall>n < length col.
            at_node b nid (col ! n) \<and>
            \<not> Empty (stats (main_sweep b 1 fid gpair (clear_temp (qexpand b) temp)
                               (take n (scan_order col)) nid)) \<and>
            fvalue (col ! n) \<noteq>
              last_fvalue (main_sweep b 1 fid gpair (clear_temp (qexpand b) temp)
                             (take n (scan_order col)) nid) \<longrightarrow>
            data_unc (drain_both gpair (fvalue (col ! n)) (fvalue (col ! n))
                        (main_sweep b 1 fid gpair (clear_temp (qexpand b) temp)
                           (take n (scan_order col)) nid)) = [] \<and>
            stats_left (drain_both gpair (fvalue (col ! n)) (fvalue (col ! n))
                          (main_sweep b 1 fid gpair (clear_temp (qexpand b) temp)
                             (take n (scan_order col)) nid)) =
              stats (main_sweep b 1 fid gpair (clear_temp (qexpand b) temp)
                       (take n (scan_order col)) nid))"
proof -
  define its where "its = enumerate 0 col"
  define ys where "ys = filter (\<lambda>it. at_node b nid (snd it)) its"
  define vals where "vals = map (\<lambda>it. fvalue (snd it)) ys"
  define b0 where "b0 = best (temp nid)"
  define er0 where "er0 = clear_node (temp nid)"
  define es0 where "es0 = (temp nid)\<lparr>stats := Clear\<rparr>"
  define er where "er = foldl (robust_node_step b 1 fid gpair nid) er0 ys"
  define es where "es = foldl (std_node_step b 1 fid gpair nid) es0 (map snd ys)"
  have so: "scan_order col = its"
    using sorted_not_descent [OF assms(3)] by (simp add: scan_order_def its_def)
  have sv: "sorted vals"
    unfolding vals_def ys_def its_def by (rule sorted_node_vals [OF assms(3)])
  have b0: "SplitIndex b0 \<noteq> fid" using assms(5) by (simp add: b0_def)
  have sim0: "node_sim fid gpair b0 [] er0 es0"
  proof -
    have "stats er0 = stats es0" "last_fvalue er0 = last_fvalue es0"
      "best er0 = b0" "best es0 = b0"
      by (simp_all add: er0_def es0_def b0_def clear_node_def)
    moreover have "scanned_ok gpair [] er0" unfolding er0_def by (rule scanned_ok_clear)
    ultimately show ?thesis by (simp add: node_sim_def best_rel_def)
  qed
  have sim: "node_sim fid gpair b0 vals er es"
    unfolding vals_def er_def es_def
    by (rule node_sim_fold [OF sim0 sv [unfolded vals_def] conjI [OF assms(1) assms(6)] b0])
  have r1: "main_sweep b 1 fid gpair (clear_temp (qexpand b) temp) its nid = er"
    unfolding main_sweep_node er_def ys_def er0_def clear_temp_in [OF assms(4)] by (rule refl)
  have ms: "map snd ys = filter (at_node b nid) col"
    unfolding ys_def its_def by (rule filter_enumerate_snd)
  have s1: "foldl (cache_opt_entry b 1 fid gpair) (clear_stats (qexpand b) temp) col nid = es"
    unfolding cache_opt_node es_def ms es0_def clear_stats_in [OF assms(4)] by (rule refl)
  have std: "EnumerateSplitCacheOpt b col 1 fid gpair temp nid = closing_node_std b 1 fid nid es"
    unfolding EnumerateSplitCacheOpt_def Let_def closing_pass_std_in [OF assms(4)] s1
    by (rule refl)
  define tc where "tc = closing_pass b 1 fid (qexpand b)
      (main_sweep b 1 fid gpair (clear_temp (qexpand b) temp) its)"
  have tcn: "tc nid = closing_node b 1 fid nid er"
    unfolding tc_def closing_pass_in [OF assms(4)] r1 by (rule refl)
  have rob: "EnumerateSplit b col 1 fid gpair temp nid =
      mtemp (midpoint_pass b fid \<lparr>mtemp = tc, last_fvalue_map = Map.empty, updated_nid = {}\<rparr> its) nid"
    unfolding EnumerateSplit_def Let_def so tc_def by (rule refl)
  note cl = closing_best_rel [OF sim b0 assms(1,2) sv, of nid]
  have main: "best (EnumerateSplit b col 1 fid gpair temp nid) =
           best (EnumerateSplitCacheOpt b col 1 fid gpair temp nid)"
  proof (cases "SplitIndex (best (tc nid)) = fid")
    case True
    have "best (mtemp (midpoint_pass b fid
              \<lparr>mtemp = tc, last_fvalue_map = Map.empty, updated_nid = {}\<rparr> its) nid) =
        moved_best (best (tc nid)) (midfix None (split_value (best (tc nid))) vals)"
      using midpoint_pass_node [of nid
          "\<lparr>mtemp = tc, last_fvalue_map = Map.empty, updated_nid = {}\<rparr>" fid b its] True
      by (simp add: vals_def ys_def)
    then show ?thesis
      unfolding rob std using cl True by (simp add: tcn)
  next
    case False
    have "mtemp (midpoint_pass b fid
              \<lparr>mtemp = tc, last_fvalue_map = Map.empty, updated_nid = {}\<rparr> its) nid = tc nid"
      using midpoint_pass_skip [of "\<lparr>mtemp = tc, last_fvalue_map = Map.empty, updated_nid = {}\<rparr>"
          nid fid b its] False
      by simp
    then show ?thesis
      unfolding rob std using cl False by (simp add: tcn)
  qed
  have drains: "data_unc (drain_both gpair (fvalue (col ! n)) (fvalue (col ! n))
                        (main_sweep b 1 fid gpair (clear_temp (qexpand b) temp)
                           (take n (scan_order col)) nid)) = [] \<and>
            stats_left (drain_both gpair (fvalue (col ! n)) (fvalue (col ! n))
                          (main_sweep b 1 fid gpair (clear_temp (qexpand b) temp)
                             (take n (scan_order col)) nid)) =
              stats (main_sweep b 1 fid gpair (clear_temp (qexpand b) temp)
                       (take n (scan_order col)) nid)"
    if n: "n < length col" and at: "at_node b nid (col ! n)"
      and ne: "\<not> Empty (stats (main_sweep b 1 fid gpair (clear_temp (qexpand b) temp)
                               (take n (scan_order col)) nid))"
      and neq: "fvalue (col ! n) \<noteq>
              last_fvalue (main_sweep b 1 fid gpair (clear_temp (qexpand b) temp)
                             (take n (scan_order col)) nid)" for n
  proof -
    define t where "t = main_sweep b 1 fid gpair (clear_temp (qexpand b) temp)
                             (take n (scan_order col)) nid"
    define zs where "zs = filter (\<lambda>it. at_node b nid (snd it)) (enumerate 0 (take n col))"
    define ws where "ws = map (\<lambda>it. fvalue (snd it)) zs"
    have tk: "take n (scan_order col) = enumerate 0 (take n col)"
      unfolding so its_def by (rule take_enumerate)
    have st: "sorted (map fvalue (take (Suc n) col))"
      using assms(3) by (simp add: take_map [symmetric] sorted_wrt_take)
    have sw: "sorted (ws @ [fvalue (col ! n)])"
    proof -
      have "ws = map fvalue (map snd zs)" by (simp add: ws_def comp_def)
      also have "\<dots> = map fvalue (filter (at_node b nid) (take n col))"
        unfolding zs_def by (simp only: filter_enumerate_snd)
      finally have "map fvalue (filter (at_node b nid) (take (Suc n) col)) =
          ws @ [fvalue (col ! n)]"
        using n at by (simp add: take_Suc_conv_app_nth)
      then show ?thesis using sorted_filter [OF st, of "at_node b nid"] by simp
    qed
    have tf: "t = foldl (robust_node_step b 1 fid gpair nid) er0 zs"
      unfolding t_def tk main_sweep_node zs_def er0_def clear_temp_in [OF assms(4)]
      by (rule refl)
    have ok: "scanned_ok gpair ws t"
      unfolding tf ws_def
      using sw by (intro scanned_ok_fold) (simp_all add: er0_def scanned_ok_clear ws_def sorted_append)
    have wne: "ws \<noteq> []" using ok ne by (auto simp add: scanned_ok_def t_def)
    then have "last ws \<in> set ws" by simp
    then have "last ws \<le> fvalue (col ! n)" using sw by (simp add: sorted_append)
    moreover have "last_fvalue t = last ws" using ok wne by (simp add: scanned_ok_def)
    ultimately have "last_fvalue t = last ws" "last ws \<le> fvalue (col ! n)" by simp_all
    then have lt: "last_fvalue t < fvalue (col ! n)" using neq by (simp add: t_def)
    from drain_collapse [OF ok lt] show ?thesis by (simp add: t_def)
  qed
  from main drains show ?thesis by blast
qed

theorem eps0_forward_same_split_witness:
  "robust_eps c8_builder = 0 \<and> 0 < kRtEps c8_builder \<and> sorted (map fvalue col123) \<and>
   (0::int) \<in> set (qexpand c8_builder) \<and>
   best (EnumerateSplitCacheOpt c8_builder col123 1 5 c8_gpair c8_temp 0) =
     \<lparr>loss_chg = 88 / 15, SplitIndex = 5, split_value = 5 / 2, DefaultLeft = False\<rparr> \<and>
   best (EnumerateSplit c8_builder col123 1 5 c8_gpair c8_temp 0) =
     \<lparr>loss_chg = 88 / 15, SplitIndex = 5, split_value = 5 / 2, DefaultLeft = False\<rparr>"
proof -
  have h1: "robust_eps c8_builder = 0" by (simp add: c8_builder_def example_builder_def)
  have h2: "0 < kRtEps c8_builder" by (simp add: c8_builder_def example_builder_def)
  have h3: "sorted (map fvalue col123)" by (simp add: col123_def mk_entry_def)
  have h4: "(0::int) \<in> set (qexpand c8_builder)" by (simp add: c8_builder_def example_builder_def)
  have h5: "SplitIndex (best (c8_temp 0)) \<noteq> 5"
    by (simp add: c8_temp_def entry0_def SplitEntry0_def)
  have h6: "\<forall>x. fsub c8_builder x 0 = x" by (simp add: c8_builder_def example_builder_def)
  have v: "best (EnumerateSplitCacheOpt c8_builder col123 1 5 c8_gpair c8_temp 0) =
     \<lparr>loss_chg = 88 / 15, SplitIndex = 5, split_value = 5 / 2, DefaultLeft = False\<rparr>"
    by code_simp
  have r: "best (EnumerateSplit c8_builder col123 1 5 c8_gpair c8_temp 0) =
     \<lparr>loss_chg = 88 / 15, SplitIndex = 5, split_value = 5 / 2, DefaultLeft = False\<rparr>"
    using eps0_forward_same_split [where b=c8_builder and col=col123 and nid=0 and temp=c8_temp
        and fid=5 and gpair=c8_gpair, OF h1 h2 h3 h4 h5 h6] v
    by simp
  from h1 h2 h3 h4 v r show ?thesis by blast
qed

end
